theory Spec2Isabelle
  imports Complex_Main "HOL-Library.Word"
begin

section \<open>Numbers and typed arrays\<close>

text \<open>
  The solver computes with JavaScript numbers. The properties below are stated in exact
  arithmetic, so a finite number is a real (\<open>Fin\<close>) and the rounding of a
  \<open>Float32Array\<close> store is left out. \<open>NonFin\<close> stands for the non-finite values
  (NaN, +Infinity, -Infinity): it is what a division by zero yields, what arithmetic on
  \<open>undefined\<close> (an out-of-range read) yields, and any sum, difference or product with
  a non-finite operand is non-finite again.
\<close>

datatype num = Fin real | NonFin

instantiation num :: comm_monoid_add
begin

definition zero_num :: num where
  "zero_num = Fin 0"

fun plus_num :: "num \<Rightarrow> num \<Rightarrow> num" where
  "plus_num (Fin a) (Fin b) = Fin (a + b)"
| "plus_num _ _ = NonFin"

instance
proof
  fix p q r :: num
  show "0 + p = p"
    by (cases p) (simp_all add: zero_num_def)
  show "p + q = q + p"
    by (induct p q rule: plus_num.induct) simp_all
  show "p + q + r = p + (q + r)"
    by (cases p; cases q; cases r; simp)
qed

end

instantiation num :: "{minus, times, inverse}"
begin

fun minus_num :: "num \<Rightarrow> num \<Rightarrow> num" where
  "minus_num (Fin a) (Fin b) = Fin (a - b)"
| "minus_num _ _ = NonFin"

fun times_num :: "num \<Rightarrow> num \<Rightarrow> num" where
  "times_num (Fin a) (Fin b) = Fin (a * b)"
| "times_num _ _ = NonFin"

fun divide_num :: "num \<Rightarrow> num \<Rightarrow> num" where
  "divide_num (Fin a) (Fin b) = (if b = 0 then NonFin else Fin (a / b))"
| "divide_num _ _ = NonFin"

definition inverse_num :: "num \<Rightarrow> num" where
  "inverse_num b = (case b of Fin r \<Rightarrow> if r = 0 then NonFin else Fin (1 / r) | NonFin \<Rightarrow> NonFin)"

instance ..

end

text \<open>
  A typed array is a list. Reading outside the array gives \<open>undefined\<close>, which is
  non-finite as a number and falsy as a flag; writing outside the array does nothing.
\<close>

definition rd :: "num list \<Rightarrow> int \<Rightarrow> num" where
  "rd a i = (if 0 \<le> i \<and> i < int (length a) then a ! nat i else NonFin)"

definition flag :: "8 word list \<Rightarrow> int \<Rightarrow> bool" where
  "flag a i = (if 0 \<le> i \<and> i < int (length a) then a ! nat i \<noteq> 0 else False)"

definition wr :: "'a list \<Rightarrow> int \<Rightarrow> 'a \<Rightarrow> 'a list" where
  "wr a i v = (if 0 \<le> i \<and> i < int (length a) then a[nat i := v] else a)"

section \<open>Counting loops\<close>

text \<open>\<open>for (let i = a; i < n; i++) body(i)\<close>\<close>

function for_lt :: "int \<Rightarrow> int \<Rightarrow> (int \<Rightarrow> 's \<Rightarrow> 's) \<Rightarrow> 's \<Rightarrow> 's" where
  "for_lt i n body s = (if i < n then for_lt (i + 1) n body (body i s) else s)"
  by pat_completeness auto
termination
  by (relation "measure (\<lambda>(i, n, body, s). nat (n - i))") auto

text \<open>\<open>for (let i = a; i <= n; i++) body(i)\<close>\<close>

function for_le :: "int \<Rightarrow> int \<Rightarrow> (int \<Rightarrow> 's \<Rightarrow> 's) \<Rightarrow> 's \<Rightarrow> 's" where
  "for_le i n body s = (if i \<le> n then for_le (i + 1) n body (body i s) else s)"
  by pat_completeness auto
termination
  by (relation "measure (\<lambda>(i, n, body, s). nat (n + 1 - i))") auto

text \<open>\<open>for (let i = a; i > n; i--) body(i)\<close>\<close>

function for_gt :: "int \<Rightarrow> int \<Rightarrow> (int \<Rightarrow> 's \<Rightarrow> 's) \<Rightarrow> 's \<Rightarrow> 's" where
  "for_gt i n body s = (if i > n then for_gt (i - 1) n body (body i s) else s)"
  by pat_completeness auto
termination
  by (relation "measure (\<lambda>(i, n, body, s). nat (i - n))") auto

declare for_lt.simps [simp del] for_le.simps [simp del] for_gt.simps [simp del]

section \<open>The lattice\<close>

record lbm =
  xdim :: int
  ydim :: int
  pxPerSquare :: int
  n0 :: "num list"
  nN :: "num list"
  nS :: "num list"
  nE :: "num list"
  nW :: "num list"
  nNE :: "num list"
  nSE :: "num list"
  nNW :: "num list"
  nSW :: "num list"
  rho :: "num list"
  ux :: "num list"
  uy :: "num list"
  curl :: "num list"
  barrier :: "8 word list"
  barrierCount :: int
  barrierxSum :: int
  barrierySum :: int
  barrierFx :: num
  barrierFy :: num
  sensorX :: int
  sensorY :: int
  nTracers :: int
  tracerX :: "num list"
  tracerY :: "num list"

definition four9ths :: num where
  "four9ths = Fin 4 / Fin 9"

definition one9th :: num where
  "one9th = Fin 1 / Fin 9"

definition one36th :: num where
  "one36th = Fin 1 / Fin 36"

text \<open>The constructor: every array zero-filled, of length \<open>xdim * ydim\<close>.\<close>

definition new_lbm :: "int \<Rightarrow> int \<Rightarrow> int \<Rightarrow> lbm" where
  "new_lbm w h px =
     (let size = nat (w * h); z = replicate size (Fin 0) in
      \<lparr>xdim = w, ydim = h, pxPerSquare = px,
       n0 = z, nN = z, nS = z, nE = z, nW = z, nNE = z, nSE = z, nNW = z, nSW = z,
       rho = z, ux = z, uy = z, curl = z, barrier = replicate size 0,
       barrierCount = 0, barrierxSum = 0, barrierySum = 0,
       barrierFx = Fin 0, barrierFy = Fin 0,
       sensorX = 0, sensorY = 0, nTracers = 144,
       tracerX = replicate 144 (Fin 0), tracerY = replicate 144 (Fin 0)\<rparr>)"

text \<open>\<open>setEquil(x, y, newux, newuy, newrho?)\<close>; an omitted \<open>newrho\<close> is \<open>None\<close>.\<close>

definition setEquil :: "int \<Rightarrow> int \<Rightarrow> num \<Rightarrow> num \<Rightarrow> num option \<Rightarrow> lbm \<Rightarrow> lbm" where
  "setEquil x y newux newuy newrho_opt s =
     (let i = x + y * xdim s;
          newrho = (case newrho_opt of None \<Rightarrow> rd (rho s) i | Some r \<Rightarrow> r);
          ux3 = Fin 3 * newux;
          uy3 = Fin 3 * newuy;
          ux2 = newux * newux;
          uy2 = newuy * newuy;
          u2 = ux2 + uy2;
          u215 = Fin 1.5 * u2;
          uxuy2 = Fin 2 * newux * newuy
      in s\<lparr>n0 := wr (n0 s) i (four9ths * newrho * (Fin 1 - u215)),
            nE := wr (nE s) i (one9th * newrho * (Fin 1 + ux3 + Fin 4.5 * ux2 - u215)),
            nW := wr (nW s) i (one9th * newrho * (Fin 1 - ux3 + Fin 4.5 * ux2 - u215)),
            nN := wr (nN s) i (one9th * newrho * (Fin 1 + uy3 + Fin 4.5 * uy2 - u215)),
            nS := wr (nS s) i (one9th * newrho * (Fin 1 - uy3 + Fin 4.5 * uy2 - u215)),
            nNE := wr (nNE s) i
                     (one36th * newrho * (Fin 1 + ux3 + uy3 + Fin 4.5 * (u2 + uxuy2) - u215)),
            nSE := wr (nSE s) i
                     (one36th * newrho * (Fin 1 + ux3 - uy3 + Fin 4.5 * (u2 - uxuy2) - u215)),
            nNW := wr (nNW s) i
                     (one36th * newrho * (Fin 1 - ux3 + uy3 + Fin 4.5 * (u2 - uxuy2) - u215)),
            nSW := wr (nSW s) i
                     (one36th * newrho * (Fin 1 - ux3 - uy3 + Fin 4.5 * (u2 + uxuy2) - u215)),
            rho := wr (rho s) i newrho,
            ux := wr (ux s) i newux,
            uy := wr (uy s) i newuy\<rparr>)"

definition addBarrier :: "int \<Rightarrow> int \<Rightarrow> lbm \<Rightarrow> lbm" where
  "addBarrier x y s =
     (if x > 1 \<and> x < xdim s - 2 \<and> y > 1 \<and> y < ydim s - 2
      then s\<lparr>barrier := wr (barrier s) (x + y * xdim s) 1\<rparr>
      else s)"

text \<open>
  What the constructor establishes and no method changes: every per-cell array has
  \<open>xdim * ydim\<close> entries.
\<close>

definition wf :: "lbm \<Rightarrow> bool" where
  "wf s \<longleftrightarrow>
     0 \<le> xdim s \<and> 0 \<le> ydim s \<and>
     int (length (n0 s)) = xdim s * ydim s \<and>
     int (length (nN s)) = xdim s * ydim s \<and>
     int (length (nS s)) = xdim s * ydim s \<and>
     int (length (nE s)) = xdim s * ydim s \<and>
     int (length (nW s)) = xdim s * ydim s \<and>
     int (length (nNE s)) = xdim s * ydim s \<and>
     int (length (nSE s)) = xdim s * ydim s \<and>
     int (length (nNW s)) = xdim s * ydim s \<and>
     int (length (nSW s)) = xdim s * ydim s \<and>
     int (length (rho s)) = xdim s * ydim s \<and>
     int (length (ux s)) = xdim s * ydim s \<and>
     int (length (uy s)) = xdim s * ydim s \<and>
     int (length (curl s)) = xdim s * ydim s \<and>
     int (length (barrier s)) = xdim s * ydim s"

text \<open>The macroscopic moments of the nine populations of a cell, as \<open>collide\<close> computes them.\<close>

definition popsum :: "lbm \<Rightarrow> int \<Rightarrow> num" where
  "popsum s i = rd (n0 s) i + rd (nN s) i + rd (nS s) i + rd (nE s) i + rd (nW s) i +
                rd (nNW s) i + rd (nNE s) i + rd (nSW s) i + rd (nSE s) i"

definition xmoment :: "lbm \<Rightarrow> int \<Rightarrow> num" where
  "xmoment s i = rd (nE s) i + rd (nNE s) i + rd (nSE s) i - rd (nW s) i - rd (nNW s) i - rd (nSW s) i"

definition ymoment :: "lbm \<Rightarrow> int \<Rightarrow> num" where
  "ymoment s i = rd (nN s) i + rd (nNE s) i + rd (nNW s) i - rd (nS s) i - rd (nSE s) i - rd (nSW s) i"

text \<open>\<open>initFluid(u0)\<close>\<close>

definition initFluid :: "num \<Rightarrow> lbm \<Rightarrow> lbm" where
  "initFluid u0 s =
     (let s1 = for_lt 0 (ydim s) (\<lambda>y t. for_lt 0 (xdim t)
                 (\<lambda>x t. let t1 = setEquil x y u0 (Fin 0) (Some (Fin 1)) t
                        in t1\<lparr>curl := wr (curl t1) (x + y * xdim t1) (Fin 0)\<rparr>) t) s
      in s1\<lparr>sensorX := xdim s1 div 2, sensorY := ydim s1 div 2\<rparr>)"

text \<open>\<open>setBoundaries(u0)\<close>: top and bottom rows, then left and right columns.\<close>

definition setBoundaries :: "num \<Rightarrow> lbm \<Rightarrow> lbm" where
  "setBoundaries u0 s =
     (let s1 = for_lt 0 (xdim s)
                 (\<lambda>x t. setEquil x (ydim t - 1) u0 (Fin 0) (Some (Fin 1))
                          (setEquil x 0 u0 (Fin 0) (Some (Fin 1)) t)) s
      in for_lt 1 (ydim s1 - 1)
           (\<lambda>y t. setEquil (xdim t - 1) y u0 (Fin 0) (Some (Fin 1))
                    (setEquil 0 y u0 (Fin 0) (Some (Fin 1)) t)) s1)"

text \<open>\<open>collide(omega)\<close>: the body of the interior pass at cell \<open>(x, y)\<close>.\<close>

definition collide_cell :: "num \<Rightarrow> int \<Rightarrow> int \<Rightarrow> lbm \<Rightarrow> lbm" where
  "collide_cell omega y x s =
     (let i = x + y * xdim s;
          thisrho = popsum s i;
          thisux = xmoment s i / thisrho;
          thisuy = ymoment s i / thisrho;
          ux2 = thisux * thisux;
          uy2 = thisuy * thisuy;
          u2 = ux2 + uy2;
          u215 = Fin 1.5 * u2;
          one9thrho = one9th * thisrho;
          one36thrho = one36th * thisrho;
          ux3 = Fin 3 * thisux;
          uy3 = Fin 3 * thisuy;
          uxuy2 = Fin 2 * thisux * thisuy
      in s\<lparr>rho := wr (rho s) i thisrho,
            ux := wr (ux s) i thisux,
            uy := wr (uy s) i thisuy,
            n0 := wr (n0 s) i
                    (rd (n0 s) i + omega * (four9ths * thisrho * (Fin 1 - u215) - rd (n0 s) i)),
            nE := wr (nE s) i
                    (rd (nE s) i + omega * (one9thrho * (Fin 1 + ux3 + Fin 4.5 * ux2 - u215) - rd (nE s) i)),
            nW := wr (nW s) i
                    (rd (nW s) i + omega * (one9thrho * (Fin 1 - ux3 + Fin 4.5 * ux2 - u215) - rd (nW s) i)),
            nN := wr (nN s) i
                    (rd (nN s) i + omega * (one9thrho * (Fin 1 + uy3 + Fin 4.5 * uy2 - u215) - rd (nN s) i)),
            nS := wr (nS s) i
                    (rd (nS s) i + omega * (one9thrho * (Fin 1 - uy3 + Fin 4.5 * uy2 - u215) - rd (nS s) i)),
            nNE := wr (nNE s) i
                    (rd (nNE s) i + omega * (one36thrho * (Fin 1 + ux3 + uy3 + Fin 4.5 * (u2 + uxuy2) - u215) - rd (nNE s) i)),
            nSE := wr (nSE s) i
                    (rd (nSE s) i + omega * (one36thrho * (Fin 1 + ux3 - uy3 + Fin 4.5 * (u2 - uxuy2) - u215) - rd (nSE s) i)),
            nNW := wr (nNW s) i
                    (rd (nNW s) i + omega * (one36thrho * (Fin 1 - ux3 + uy3 + Fin 4.5 * (u2 - uxuy2) - u215) - rd (nNW s) i)),
            nSW := wr (nSW s) i
                    (rd (nSW s) i + omega * (one36thrho * (Fin 1 - ux3 - uy3 + Fin 4.5 * (u2 + uxuy2) - u215) - rd (nSW s) i))\<rparr>)"

text \<open>The body of the East boundary pass at row \<open>y\<close>.\<close>

definition collide_east :: "int \<Rightarrow> lbm \<Rightarrow> lbm" where
  "collide_east y s =
     (let i = xdim s - 1 + y * xdim s;
          im1 = i - 1
      in s\<lparr>nW := wr (nW s) i (rd (nW s) im1),
            nNW := wr (nNW s) i (rd (nNW s) im1),
            nSW := wr (nSW s) i (rd (nSW s) im1)\<rparr>)"

definition collide_interior :: "num \<Rightarrow> lbm \<Rightarrow> lbm" where
  "collide_interior omega s =
     for_lt 1 (ydim s - 1) (\<lambda>y t. for_lt 1 (xdim t - 1) (collide_cell omega y) t) s"

definition collide :: "num \<Rightarrow> lbm \<Rightarrow> lbm" where
  "collide omega s =
     (let s1 = collide_interior omega s
      in for_lt 1 (ydim s1 - 2) collide_east s1)"

text \<open>\<open>stream()\<close>: the bodies of the four directional sweeps, with \<open>xd\<close> the local \<open>xdim\<close>.\<close>

definition stream_N :: "int \<Rightarrow> int \<Rightarrow> int \<Rightarrow> lbm \<Rightarrow> lbm" where
  "stream_N xd y x s =
     s\<lparr>nN := wr (nN s) (x + y * xd) (rd (nN s) (x + (y - 1) * xd)),
       nNW := wr (nNW s) (x + y * xd) (rd (nNW s) (x + 1 + (y - 1) * xd))\<rparr>"

definition stream_E :: "int \<Rightarrow> int \<Rightarrow> int \<Rightarrow> lbm \<Rightarrow> lbm" where
  "stream_E xd y x s =
     s\<lparr>nE := wr (nE s) (x + y * xd) (rd (nE s) (x - 1 + y * xd)),
       nNE := wr (nNE s) (x + y * xd) (rd (nNE s) (x - 1 + (y - 1) * xd))\<rparr>"

definition stream_S :: "int \<Rightarrow> int \<Rightarrow> int \<Rightarrow> lbm \<Rightarrow> lbm" where
  "stream_S xd y x s =
     s\<lparr>nS := wr (nS s) (x + y * xd) (rd (nS s) (x + (y + 1) * xd)),
       nSE := wr (nSE s) (x + y * xd) (rd (nSE s) (x - 1 + (y + 1) * xd))\<rparr>"

definition stream_W :: "int \<Rightarrow> int \<Rightarrow> int \<Rightarrow> lbm \<Rightarrow> lbm" where
  "stream_W xd y x s =
     s\<lparr>nW := wr (nW s) (x + y * xd) (rd (nW s) (x + 1 + y * xd)),
       nSW := wr (nSW s) (x + y * xd) (rd (nSW s) (x + 1 + (y + 1) * xd))\<rparr>"

definition stream_reset :: "lbm \<Rightarrow> lbm" where
  "stream_reset s =
     s\<lparr>barrierCount := 0, barrierxSum := 0, barrierySum := 0,
       barrierFx := Fin 0, barrierFy := Fin 0\<rparr>"

definition stream_sweeps :: "lbm \<Rightarrow> lbm" where
  "stream_sweeps s =
     (let xd = xdim s; yd = ydim s;
          s1 = for_gt (yd - 2) 0 (\<lambda>y. for_lt 1 (xd - 1) (stream_N xd y)) s;
          s2 = for_gt (yd - 2) 0 (\<lambda>y. for_gt (xd - 2) 0 (stream_E xd y)) s1;
          s3 = for_lt 1 (yd - 1) (\<lambda>y. for_gt (xd - 2) 0 (stream_S xd y)) s2
      in for_lt 1 (yd - 1) (\<lambda>y. for_lt 1 (xd - 1) (stream_W xd y)) s3)"

text \<open>The body of the bounce-back pass at cell \<open>(x, y)\<close>.\<close>

definition bounce :: "int \<Rightarrow> int \<Rightarrow> int \<Rightarrow> lbm \<Rightarrow> lbm" where
  "bounce xd y x s =
     (if flag (barrier s) (x + y * xd) then
        (let i = x + y * xd;
             E = rd (nE s) i; W = rd (nW s) i; N = rd (nN s) i; S = rd (nS s) i;
             NE = rd (nNE s) i; NW = rd (nNW s) i; SE = rd (nSE s) i; SW = rd (nSW s) i
         in s\<lparr>nE := wr (nE s) (x + 1 + y * xd) W,
               nW := wr (nW s) (x - 1 + y * xd) E,
               nN := wr (nN s) (x + (y + 1) * xd) S,
               nS := wr (nS s) (x + (y - 1) * xd) N,
               nNE := wr (nNE s) (x + 1 + (y + 1) * xd) SW,
               nNW := wr (nNW s) (x - 1 + (y + 1) * xd) SE,
               nSE := wr (nSE s) (x + 1 + (y - 1) * xd) NW,
               nSW := wr (nSW s) (x - 1 + (y - 1) * xd) NE,
               barrierCount := barrierCount s + 1,
               barrierxSum := barrierxSum s + x,
               barrierySum := barrierySum s + y,
               barrierFx := barrierFx s + (E + NE + SE - W - NW - SW),
               barrierFy := barrierFy s + (N + NE + NW - S - SE - SW)\<rparr>)
      else s)"

definition stream_bounce :: "lbm \<Rightarrow> lbm" where
  "stream_bounce s =
     (let xd = xdim s; yd = ydim s
      in for_lt 1 (yd - 1) (\<lambda>y. for_lt 1 (xd - 1) (bounce xd y)) s)"

definition stream :: "lbm \<Rightarrow> lbm" where
  "stream s = stream_bounce (stream_sweeps (stream_reset s))"

text \<open>\<open>pushFluid(pushX, pushY, pushUX, pushUY)\<close>\<close>

definition pushFluid :: "int \<Rightarrow> int \<Rightarrow> num \<Rightarrow> num \<Rightarrow> lbm \<Rightarrow> lbm" where
  "pushFluid pushX pushY pushUX pushUY s =
     (let xd = xdim s; yd = ydim s; margin = 3
      in if pushX > margin \<and> pushX < xd - 1 - margin \<and> pushY > margin \<and> pushY < yd - 1 - margin
         then
           (let s1 = for_le (- 1) 1
                       (\<lambda>dx t. setEquil (pushX + dx) (pushY - 2) pushUX pushUY None
                                 (setEquil (pushX + dx) (pushY + 2) pushUX pushUY None t)) s
            in for_le (- 2) 2
                 (\<lambda>dx. for_le (- 1) 1
                    (\<lambda>dy. setEquil (pushX + dx) (pushY + dy) pushUX pushUY None)) s1)
         else s)"

text \<open>The fields of the state that \<open>stream\<close> is not meant to touch.\<close>

definition outside_stream :: "lbm \<Rightarrow> lbm \<Rightarrow> bool" where
  "outside_stream s t \<longleftrightarrow>
     n0 t = n0 s \<and> rho t = rho s \<and> ux t = ux s \<and> uy t = uy s \<and> curl t = curl s \<and>
     barrier t = barrier s \<and> tracerX t = tracerX s \<and> tracerY t = tracerY s \<and>
     sensorX t = sensorX s \<and> sensorY t = sensorY s \<and> nTracers t = nTracers s \<and>
     xdim t = xdim s \<and> ydim t = ydim s \<and> pxPerSquare t = pxPerSquare s"

text \<open>The cells \<open>(y, x)\<close> that a nested loop over rows \<open>ys\<close> and columns \<open>xs\<close> visits, in order.\<close>

definition grid :: "int list \<Rightarrow> int list \<Rightarrow> (int \<times> int) list" where
  "grid ys xs = concat (map (\<lambda>y. map (\<lambda>x. (y, x)) xs) ys)"

text \<open>The row-major index \<open>x + y * w\<close> of the cell \<open>(y, x)\<close>.\<close>

definition idx :: "int \<Rightarrow> int \<times> int \<Rightarrow> int" where
  "idx w c = snd c + fst c * w"

text \<open>Visited earlier: in an earlier row, or earlier in the same row.\<close>

definition lexi :: "(int \<Rightarrow> int \<Rightarrow> bool) \<Rightarrow> (int \<Rightarrow> int \<Rightarrow> bool) \<Rightarrow> int \<times> int \<Rightarrow> int \<times> int \<Rightarrow> bool" where
  "lexi Ry Rx c d \<longleftrightarrow> Ry (fst c) (fst d) \<or> (fst c = fst d \<and> Rx (snd c) (snd d))"

text \<open>A constructed lattice of width \<open>w\<close> and height \<open>h\<close>.\<close>

definition dims :: "int \<Rightarrow> int \<Rightarrow> lbm \<Rightarrow> bool" where
  "dims w h s \<longleftrightarrow> wf s \<and> xdim s = w \<and> ydim s = h"

text \<open>The interior cells \<open>(y, x)\<close> whose barrier flag is set, in the order of the bounce-back scan.\<close>

definition barrier_cells :: "lbm \<Rightarrow> (int \<times> int) list" where
  "barrier_cells s =
     filter (\<lambda>c. flag (barrier s) (idx (xdim s) c)) (grid [1..ydim s - 2] [1..xdim s - 2])"



text \<open>
  A 5 by 5 lattice, zero-filled but for \<open>nW = 7\<close> at cell \<open>(3, 2)\<close>, with a barrier
  placed at \<open>(2, 2)\<close>.
\<close>

definition one_barrier :: lbm where
  "one_barrier = addBarrier 2 2 ((new_lbm 5 5 1)\<lparr>nW := (replicate 25 (Fin 0))[13 := Fin 7]\<rparr>)"


text \<open>The nine populations of the cell at index \<open>i\<close>, and its three macroscopic entries.\<close>

definition pops :: "lbm \<Rightarrow> int \<Rightarrow> num list" where
  "pops s i = [rd (n0 s) i, rd (nE s) i, rd (nW s) i, rd (nN s) i, rd (nS s) i,
               rd (nNE s) i, rd (nSE s) i, rd (nNW s) i, rd (nSW s) i]"

definition macro :: "lbm \<Rightarrow> int \<Rightarrow> num list" where
  "macro s i = [rd (rho s) i, rd (ux s) i, rd (uy s) i]"

text \<open>
  The nine equilibrium populations for density \<open>r\<close> and velocity \<open>(vx, vy)\<close>, by the
  formulas of \<open>setEquil\<close>, in the order of \<open>pops\<close>.
\<close>

definition equil :: "num \<Rightarrow> num \<Rightarrow> num \<Rightarrow> num list" where
  "equil r vx vy =
     (let ux3 = Fin 3 * vx;
          uy3 = Fin 3 * vy;
          ux2 = vx * vx;
          uy2 = vy * vy;
          u2 = ux2 + uy2;
          u215 = Fin 1.5 * u2;
          uxuy2 = Fin 2 * vx * vy
      in [four9ths * r * (Fin 1 - u215),
          one9th * r * (Fin 1 + ux3 + Fin 4.5 * ux2 - u215),
          one9th * r * (Fin 1 - ux3 + Fin 4.5 * ux2 - u215),
          one9th * r * (Fin 1 + uy3 + Fin 4.5 * uy2 - u215),
          one9th * r * (Fin 1 - uy3 + Fin 4.5 * uy2 - u215),
          one36th * r * (Fin 1 + ux3 + uy3 + Fin 4.5 * (u2 + uxuy2) - u215),
          one36th * r * (Fin 1 + ux3 - uy3 + Fin 4.5 * (u2 - uxuy2) - u215),
          one36th * r * (Fin 1 - ux3 + uy3 + Fin 4.5 * (u2 - uxuy2) - u215),
          one36th * r * (Fin 1 - ux3 - uy3 + Fin 4.5 * (u2 + uxuy2) - u215)])"

text \<open>
  The cells \<open>(y, x)\<close> around \<open>(x, y)\<close> that a push is to overwrite: the cross cells two
  rows above and below, then the block of five columns by three rows.
\<close>

definition push_cells :: "int \<Rightarrow> int \<Rightarrow> (int \<times> int) list" where
  "push_cells x y =
     concat (map (\<lambda>dx. [(y + 2, x + dx), (y - 2, x + dx)]) [- 1..1]) @
     concat (map (\<lambda>dx. map (\<lambda>dy. (y + dy, x + dx)) [- 1..1]) [- 2..2])"

text \<open>A 9 by 9 lattice, zero-filled but for density 1 in every cell.\<close>

definition push_example :: lbm where
  "push_example = (new_lbm 9 9 1)\<lparr>rho := replicate 81 (Fin 1)\<rparr>"

text \<open>
  Every cell of the lattice holds the equilibrium populations for density 1 and
  velocity \<open>(u, 0)\<close>.
\<close>

definition uniform_flow :: "real \<Rightarrow> lbm \<Rightarrow> bool" where
  "uniform_flow u s \<longleftrightarrow>
     (\<forall>i\<in>set [0..xdim s * ydim s - 1]. pops s i = equil (Fin 1) (Fin u) (Fin 0))"

text \<open>No barrier flag is set.\<close>

definition barrier_free :: "lbm \<Rightarrow> bool" where
  "barrier_free s \<longleftrightarrow> (\<forall>b\<in>set (barrier s). b = 0)"

text \<open>A constructed lattice in uniform flow, with barrier map \<open>b\<close>.\<close>

definition steady :: "int \<Rightarrow> int \<Rightarrow> real \<Rightarrow> 8 word list \<Rightarrow> lbm \<Rightarrow> bool" where
  "steady w h u b s \<longleftrightarrow> dims w h s \<and> uniform_flow u s \<and> barrier s = b"

text \<open>
  A 3 by 3 lattice with the fluid at rest (\<open>initFluid(0)\<close>) on which the boundary
  conditions for inflow speed 0.1 have been imposed (\<open>setBoundaries(0.1)\<close>).
\<close>

definition stale_outflow :: lbm where
  "stale_outflow = setBoundaries (Fin 0.1) (initFluid (Fin 0) (new_lbm 3 3 1))"

text \<open>
  Double-buffered streaming, the alternative the design notes name: the new array is a
  copy of the old one in which every interior cell has received the old value of its
  upstream neighbour \<open>(x + dx, y + dy)\<close>; every read is from the old buffer.
\<close>

definition buffered_shift :: "int \<Rightarrow> int \<Rightarrow> int \<Rightarrow> int \<Rightarrow> num list \<Rightarrow> num list" where
  "buffered_shift w h dx dy old =
     fold (\<lambda>c new. wr new (idx w c) (rd old (idx w (fst c + dy, snd c + dx))))
       (grid [1..h - 2] [1..w - 2]) old"

definition stream_double_buffered :: "lbm \<Rightarrow> lbm" where
  "stream_double_buffered s =
     (let w = xdim s; h = ydim s
      in s\<lparr>nN := buffered_shift w h 0 (- 1) (nN s),
            nNW := buffered_shift w h 1 (- 1) (nNW s),
            nE := buffered_shift w h (- 1) 0 (nE s),
            nNE := buffered_shift w h (- 1) (- 1) (nNE s),
            nS := buffered_shift w h 0 1 (nS s),
            nSE := buffered_shift w h (- 1) 1 (nSE s),
            nW := buffered_shift w h 1 0 (nW s),
            nSW := buffered_shift w h 1 1 (nSW s)\<rparr>)"

section \<open>Basic facts\<close>

lemma rd_wr_same: "0 \<le> i \<Longrightarrow> i < int (length a) \<Longrightarrow> rd (wr a i v) i = v"
  by (simp add: rd_def wr_def)

lemma rd_wr_other: "i \<noteq> j \<Longrightarrow> rd (wr a j v) i = rd a i"
  by (auto simp: rd_def wr_def)

lemma length_wr [simp]: "length (wr a i v) = length a"
  by (simp add: wr_def)

lemma idx_in_range:
  fixes x y w h :: int
  assumes "0 \<le> x" "x < w" "0 \<le> y" "y < h"
  shows "0 \<le> x + y * w" and "x + y * w < w * h"
proof -
  have w: "0 \<le> w" using assms by simp
  show "0 \<le> x + y * w"
    using assms w by simp
  have "y + 1 \<le> h" using assms by simp
  then have "(y + 1) * w \<le> h * w"
    using w by (rule mult_right_mono)
  then show "x + y * w < w * h"
    using assms by (simp add: algebra_simps)
qed

lemma wf_new: "0 \<le> w \<Longrightarrow> 0 \<le> h \<Longrightarrow> wf (new_lbm w h px)"
  by (simp add: wf_def new_lbm_def Let_def)

lemma dims_new [simp]: "xdim (new_lbm w h px) = w" "ydim (new_lbm w h px) = h"
  by (simp_all add: new_lbm_def Let_def)

lemma consts_fin: "four9ths = Fin (4 / 9)" "one9th = Fin (1 / 9)" "one36th = Fin (1 / 36)"
  by (simp_all add: four9ths_def one9th_def one36th_def)


section \<open>Barrier placement\<close>

text \<open>
  C8. On a lattice whose arrays have \<open>xdim * ydim\<close> entries, \<open>addBarrier(x, y)\<close> with
  \<open>1 < x < xdim - 2\<close> and \<open>1 < y < ydim - 2\<close> stores 1 at index \<open>x + y * xdim\<close> of the
  barrier map (an index inside the map) and changes nothing else; for every other
  \<open>(x, y)\<close> the call returns the state unchanged.
\<close>

theorem addBarrier_guard:
  assumes "wf s"
  shows "(1 < x \<and> x < xdim s - 2 \<and> 1 < y \<and> y < ydim s - 2 \<longrightarrow>
            nat (x + y * xdim s) < length (barrier s) \<and>
            addBarrier x y s = s\<lparr>barrier := (barrier s)[nat (x + y * xdim s) := 1]\<rparr> \<and>
            barrier (addBarrier x y s) ! nat (x + y * xdim s) = 1) \<and>
         (\<not> (1 < x \<and> x < xdim s - 2 \<and> 1 < y \<and> y < ydim s - 2) \<longrightarrow> addBarrier x y s = s)"
proof (intro conjI impI)
  assume g: "1 < x \<and> x < xdim s - 2 \<and> 1 < y \<and> y < ydim s - 2"
  then have r: "0 \<le> x + y * xdim s" "x + y * xdim s < xdim s * ydim s"
    using idx_in_range [of x "xdim s" y "ydim s"] by simp_all
  have len: "int (length (barrier s)) = xdim s * ydim s"
    using assms by (simp add: wf_def)
  show "nat (x + y * xdim s) < length (barrier s)"
    using r len by linarith
  show "addBarrier x y s = s\<lparr>barrier := (barrier s)[nat (x + y * xdim s) := 1]\<rparr>"
    using g r len by (simp add: addBarrier_def wr_def)
  then show "barrier (addBarrier x y s) ! nat (x + y * xdim s) = 1"
    using r len by simp
next
  assume "\<not> (1 < x \<and> x < xdim s - 2 \<and> 1 < y \<and> y < ydim s - 2)"
  then show "addBarrier x y s = s"
    unfolding addBarrier_def by (simp only: if_False)
qed

theorem addBarrier_guard_witness:
  "wf (new_lbm 6 6 1) \<and>
   barrier (addBarrier 2 2 (new_lbm 6 6 1)) ! 14 = 1 \<and>
   addBarrier 1 2 (new_lbm 6 6 1) = new_lbm 6 6 1 \<and>
   addBarrier 4 2 (new_lbm 6 6 1) = new_lbm 6 6 1"
proof -
  have w: "wf (new_lbm 6 6 1)" by (simp add: wf_new)
  show ?thesis
    using w addBarrier_guard [OF w, of 2 2] addBarrier_guard [OF w, of 1 2]
      addBarrier_guard [OF w, of 4 2]
    by simp
qed

section \<open>Equilibrium populations\<close>



section \<open>Loops as folds\<close>

lemma for_lt_fold: "for_lt i n body s = fold body [i..n - 1] s"
proof (induction i n body s rule: for_lt.induct)
  case (1 i n body s)
  show ?case
  proof (cases "i < n")
    case True
    then have "[i..n - 1] = i # [i + 1..n - 1]"
      by (simp add: upto_rec1)
    then show ?thesis
      using True "1.IH" by (simp add: for_lt.simps [of i])
  next
    case False
    then show ?thesis
      by (simp add: for_lt.simps [of i])
  qed
qed

lemma for_le_fold: "for_le i n body s = fold body [i..n] s"
proof (induction i n body s rule: for_le.induct)
  case (1 i n body s)
  show ?case
  proof (cases "i \<le> n")
    case True
    then have "[i..n] = i # [i + 1..n]"
      by (simp add: upto_rec1)
    then show ?thesis
      using True "1.IH" by (simp add: for_le.simps [of i])
  next
    case False
    then show ?thesis
      by (simp add: for_le.simps [of i])
  qed
qed

lemma for_gt_fold: "for_gt i n body s = fold body (rev [n + 1..i]) s"
proof (induction i n body s rule: for_gt.induct)
  case (1 i n body s)
  show ?case
  proof (cases "i > n")
    case True
    then have "[n + 1..i] = [n + 1..i - 1] @ [i]"
      by (simp add: upto_rec2)
    then show ?thesis
      using True "1.IH" by (simp add: for_gt.simps [of i])
  next
    case False
    then show ?thesis
      by (simp add: for_gt.simps [of i])
  qed
qed

lemma fold_inv:
  assumes "\<And>i s. P s \<Longrightarrow> P (body i s)" and "P s"
  shows "P (fold body is s)"
  using assms(2) by (induction "is" arbitrary: s) (simp_all add: assms(1))

lemma for_lt_inv:
  assumes "\<And>i s. P s \<Longrightarrow> P (body i s)" and "P s"
  shows "P (for_lt i n body s)"
  unfolding for_lt_fold using assms by (rule fold_inv)

lemma for_gt_inv:
  assumes "\<And>i s. P s \<Longrightarrow> P (body i s)" and "P s"
  shows "P (for_gt i n body s)"
  unfolding for_gt_fold using assms by (rule fold_inv)

section \<open>The frame of streaming\<close>

lemma outside_stream_steps:
  "outside_stream s t \<Longrightarrow> outside_stream s (stream_N xd y x t)"
  "outside_stream s t \<Longrightarrow> outside_stream s (stream_E xd y x t)"
  "outside_stream s t \<Longrightarrow> outside_stream s (stream_S xd y x t)"
  "outside_stream s t \<Longrightarrow> outside_stream s (stream_W xd y x t)"
  "outside_stream s t \<Longrightarrow> outside_stream s (bounce xd y x t)"
  by (simp_all add: outside_stream_def stream_N_def stream_E_def stream_S_def stream_W_def
      bounce_def Let_def)

lemma outside_stream_reset: "outside_stream s (stream_reset s)"
  by (simp add: outside_stream_def stream_reset_def)

lemma outside_stream_sweeps:
  assumes "outside_stream s t"
  shows "outside_stream s (stream_sweeps t)"
  unfolding stream_sweeps_def Let_def
  by (intro for_lt_inv [where P = "outside_stream s"] for_gt_inv [where P = "outside_stream s"]
      outside_stream_steps assms)

lemma outside_stream_bounce:
  assumes "outside_stream s t"
  shows "outside_stream s (stream_bounce t)"
  unfolding stream_bounce_def Let_def
  by (intro for_lt_inv [where P = "outside_stream s"] outside_stream_steps assms)

text \<open>
  C10. \<open>stream()\<close> leaves \<open>n0\<close>, \<open>rho\<close>, \<open>ux\<close>, \<open>uy\<close>, \<open>curl\<close>, the barrier map,
  the tracer positions, the sensor coordinates, the tracer count and the grid
  dimensions as they were: only the eight directional population arrays and the five
  barrier accumulators can differ after the call.
\<close>

theorem stream_frame:
  "n0 (stream s) = n0 s \<and> rho (stream s) = rho s \<and> ux (stream s) = ux s \<and>
   uy (stream s) = uy s \<and> curl (stream s) = curl s \<and> barrier (stream s) = barrier s \<and>
   tracerX (stream s) = tracerX s \<and> tracerY (stream s) = tracerY s \<and>
   sensorX (stream s) = sensorX s \<and> sensorY (stream s) = sensorY s \<and>
   nTracers (stream s) = nTracers s \<and> xdim (stream s) = xdim s \<and> ydim (stream s) = ydim s \<and>
   pxPerSquare (stream s) = pxPerSquare s"
proof -
  have "outside_stream s (stream s)"
    unfolding stream_def
    by (intro outside_stream_bounce outside_stream_sweeps outside_stream_reset)
  then show ?thesis
    by (simp add: outside_stream_def)
qed

section \<open>Nested loops over the grid\<close>

lemma fold_grid:
  "fold (\<lambda>y. fold (body y) xs) ys s = fold (\<lambda>c. body (fst c) (snd c)) (grid ys xs) s"
proof (induction ys arbitrary: s)
  case Nil
  show ?case by (simp add: grid_def)
next
  case (Cons y ys)
  have "fold (body y) xs s = fold (\<lambda>c. body (fst c) (snd c)) (map (\<lambda>x. (y, x)) xs) s"
    by (simp add: fold_map comp_def)
  then show ?case
    using Cons.IH by (simp add: grid_def)
qed

lemma set_grid: "set (grid ys xs) = set ys \<times> set xs"
  by (auto simp: grid_def)

lemma grid_Cons: "grid (y # ys) xs = map (\<lambda>x. (y, x)) xs @ grid ys xs"
  by (simp add: grid_def)

lemma distinct_grid:
  assumes "distinct ys" "distinct xs"
  shows "distinct (grid ys xs)"
  using assms(1)
proof (induction ys)
  case Nil
  show ?case by (simp add: grid_def)
next
  case (Cons y ys)
  have "distinct (map (\<lambda>x. (y, x)) xs)"
    using assms(2) by (simp add: distinct_map inj_on_def)
  then show ?case
    using Cons by (auto simp: grid_Cons set_grid)
qed

lemma sorted_wrt_grid:
  assumes "sorted_wrt Ry ys" "sorted_wrt Rx xs"
  shows "sorted_wrt (lexi Ry Rx) (grid ys xs)"
  using assms(1)
proof (induction ys)
  case Nil
  show ?case by (simp add: grid_def)
next
  case (Cons y ys)
  have row: "sorted_wrt (lexi Ry Rx) (map (\<lambda>x. (y, x)) xs)"
    unfolding sorted_wrt_map
    by (rule sorted_wrt_mono_rel [OF _ assms(2)]) (simp add: lexi_def)
  have rest: "sorted_wrt (lexi Ry Rx) (grid ys xs)"
    using Cons by simp
  have cross: "\<forall>c\<in>set (map (\<lambda>x. (y, x)) xs). \<forall>d\<in>set (grid ys xs). lexi Ry Rx c d"
    using Cons.prems by (auto simp: set_grid lexi_def)
  show ?case
    using row rest cross by (simp add: grid_Cons sorted_wrt_append)
qed

lemma idx_inj:
  fixes w :: int
  assumes "0 \<le> snd c" "snd c < w" "0 \<le> snd d" "snd d < w" "idx w c = idx w d"
  shows "c = d"
proof -
  have "(snd c + fst c * w) mod w = (snd d + fst d * w) mod w"
    using assms(5) by (simp add: idx_def)
  then have x: "snd c = snd d"
    using assms(1-4) by simp
  then have "fst c * w = fst d * w"
    using assms(5) by (simp add: idx_def)
  moreover have "w \<noteq> 0"
    using assms(1,2) by auto
  ultimately have "fst c = fst d"
    by simp
  then show ?thesis
    using x by (simp add: prod_eq_iff)
qed

lemma fold_local_other:
  assumes "\<And>c s. c \<in> set cs \<Longrightarrow> key c \<noteq> i \<Longrightarrow> get (body c s) i = get s i"
    and "i \<notin> key ` set cs"
  shows "get (fold body cs s) i = get s i"
  using assms by (induction cs arbitrary: s) auto

lemma fold_shift_at:
  assumes inv: "\<And>c s. I s \<Longrightarrow> I (body c s)"
    and other: "\<And>c s i. c \<in> set cs \<Longrightarrow> key c \<noteq> i \<Longrightarrow> get (body c s) i = get s i"
    and at: "\<And>c s. I s \<Longrightarrow> c \<in> set cs \<Longrightarrow> get (body c s) (key c) = get s (src c)"
    and dist: "distinct (map key cs)"
    and order: "sorted_wrt R cs"
    and safe: "\<And>d. d \<in> set cs \<Longrightarrow> key d = src c \<Longrightarrow> \<not> R d c"
    and start: "I s"
    and mem: "c \<in> set cs"
  shows "get (fold body cs s) (key c) = get s (src c)"
proof -
  obtain pre post where split: "cs = pre @ c # post"
    using mem by (auto dest: split_list)
  have post: "key c \<notin> key ` set post"
    using dist split by auto
  have pre: "src c \<notin> key ` set pre"
  proof
    assume "src c \<in> key ` set pre"
    then obtain d where d: "d \<in> set pre" "key d = src c"
      by auto
    then have "R d c"
      using order split by (simp add: sorted_wrt_append)
    moreover have "d \<in> set cs"
      using d split by simp
    ultimately show False
      using safe d by blast
  qed
  have mid: "I (fold body pre s)"
    using inv start by (rule fold_inv)
  have "get (fold body cs s) (key c) = get (fold body post (body c (fold body pre s))) (key c)"
    by (simp add: split)
  also have "\<dots> = get (body c (fold body pre s)) (key c)"
    using other post by (intro fold_local_other) (auto simp: split)
  also have "\<dots> = get (fold body pre s) (src c)"
    using at mid mem by simp
  also have "\<dots> = get s (src c)"
    using other pre by (intro fold_local_other) (auto simp: split)
  finally show ?thesis .
qed

lemma inj_on_idx:
  assumes "\<And>c. c \<in> C \<Longrightarrow> 0 \<le> snd c \<and> snd c < w"
  shows "inj_on (idx w) C"
  by (rule inj_onI) (use assms idx_inj in blast)

lemma grid_shift:
  assumes inv: "\<And>c s. I s \<Longrightarrow> I (body c s)"
    and other: "\<And>c s i. idx w c \<noteq> i \<Longrightarrow> get (body c s) i = get s i"
    and at: "\<And>c s. I s \<Longrightarrow> c \<in> set (grid ys xs) \<Longrightarrow>
               get (body c s) (idx w c) = get s (idx w (fst c + dy, snd c + dx))"
    and ys: "distinct ys" "sorted_wrt Ry ys"
    and xs: "distinct xs" "sorted_wrt Rx xs" "set xs \<subseteq> {1..w - 2}"
    and dx: "- 1 \<le> dx" "dx \<le> 1"
    and safe: "\<not> lexi Ry Rx (fst c + dy, snd c + dx) c"
    and start: "I s"
    and mem: "c \<in> set (grid ys xs)"
  shows "get (fold body (grid ys xs) s) (idx w c) = get s (idx w (fst c + dy, snd c + dx))"
proof (rule fold_shift_at [where I = I and R = "lexi Ry Rx" and key = "idx w"
      and src = "\<lambda>c. idx w (fst c + dy, snd c + dx)"])
  show "\<And>c s. I s \<Longrightarrow> I (body c s)"
    by (rule inv)
  show "\<And>c s i. c \<in> set (grid ys xs) \<Longrightarrow> idx w c \<noteq> i \<Longrightarrow> get (body c s) i = get s i"
    by (rule other)
  show "\<And>c s. I s \<Longrightarrow> c \<in> set (grid ys xs) \<Longrightarrow>
      get (body c s) (idx w c) = get s (idx w (fst c + dy, snd c + dx))"
    by (rule at)
  have rng: "\<And>d. d \<in> set (grid ys xs) \<Longrightarrow> 0 \<le> snd d \<and> snd d < w"
    using xs(3) by (auto simp: set_grid)
  show "distinct (map (idx w) (grid ys xs))"
    unfolding distinct_map using ys(1) xs(1) rng by (simp add: distinct_grid inj_on_idx)
  show "sorted_wrt (lexi Ry Rx) (grid ys xs)"
    using ys(2) xs(2) by (rule sorted_wrt_grid)
  show "I s" by (rule start)
  show "c \<in> set (grid ys xs)" by (rule mem)
  show "\<not> lexi Ry Rx d c" if d: "d \<in> set (grid ys xs)"
    and eq: "idx w d = idx w (fst c + dy, snd c + dx)" for d
  proof -
    have "1 \<le> snd c \<and> snd c \<le> w - 2"
      using mem xs(3) by (auto simp: set_grid)
    then have "0 \<le> snd (fst c + dy, snd c + dx) \<and> snd (fst c + dy, snd c + dx) < w"
      using dx by simp
    then have "d = (fst c + dy, snd c + dx)"
      using rng [OF d] eq by (intro idx_inj [of d w]) simp_all
    then show ?thesis
      using safe by simp
  qed
qed

section \<open>The streaming sweeps\<close>

lemma loops_fold:
  "for_lt i n body = fold body [i..n - 1]"
  "for_le i n body = fold body [i..n]"
  "for_gt i n body = fold body (rev [n + 1..i])"
  by (rule ext, rule for_lt_fold, rule ext, rule for_le_fold, rule ext, rule for_gt_fold)

lemma sweeps_as_folds:
  "stream_sweeps s =
     fold (\<lambda>c. stream_W (xdim s) (fst c) (snd c)) (grid [1..ydim s - 2] [1..xdim s - 2])
       (fold (\<lambda>c. stream_S (xdim s) (fst c) (snd c)) (grid [1..ydim s - 2] (rev [1..xdim s - 2]))
         (fold (\<lambda>c. stream_E (xdim s) (fst c) (snd c)) (grid (rev [1..ydim s - 2]) (rev [1..xdim s - 2]))
           (fold (\<lambda>c. stream_N (xdim s) (fst c) (snd c)) (grid (rev [1..ydim s - 2]) [1..xdim s - 2]) s)))"
  by (simp add: stream_sweeps_def loops_fold fold_grid Let_def)

lemma interior_idx:
  assumes "1 \<le> fst c" "fst c \<le> h - 2" "1 \<le> snd c" "snd c \<le> w - 2"
  shows "0 \<le> idx w c" "idx w c < w * h"
  using idx_in_range [of "snd c" w "fst c" h] assms by (simp_all add: idx_def)

lemma dims_stream_bodies:
  "dims w h s \<Longrightarrow> dims w h (stream_N xd y x s)"
  "dims w h s \<Longrightarrow> dims w h (stream_E xd y x s)"
  "dims w h s \<Longrightarrow> dims w h (stream_S xd y x s)"
  "dims w h s \<Longrightarrow> dims w h (stream_W xd y x s)"
  by (simp_all add: dims_def wf_def stream_N_def stream_E_def stream_S_def stream_W_def)

lemma sweep_field:
  assumes body: "\<And>y x s. fld (body y x s) = wr (fld s) (x + y * w) (rd (fld s) (x + dx + (y + dy) * w))"
    and inv: "\<And>y x s. dims w h s \<Longrightarrow> dims w h (body y x s)"
    and len: "\<And>s. dims w h s \<Longrightarrow> int (length (fld s)) = w * h"
    and ys: "distinct ys" "sorted_wrt Ry ys" "set ys \<subseteq> {1..h - 2}"
    and xs: "distinct xs" "sorted_wrt Rx xs" "set xs \<subseteq> {1..w - 2}"
    and dx: "- 1 \<le> dx" "dx \<le> 1"
    and safe: "\<not> lexi Ry Rx (y + dy, x + dx) (y, x)"
    and start: "dims w h s"
    and mem: "y \<in> set ys" "x \<in> set xs"
  shows "rd (fld (fold (\<lambda>c. body (fst c) (snd c)) (grid ys xs) s)) (x + y * w)
         = rd (fld s) (x + dx + (y + dy) * w)"
proof -
  have "rd (fld (fold (\<lambda>c. body (fst c) (snd c)) (grid ys xs) s)) (idx w (y, x))
        = rd (fld s) (idx w (fst (y, x) + dy, snd (y, x) + dx))"
  proof (rule grid_shift [where I = "dims w h" and get = "\<lambda>s. rd (fld s)" and Ry = Ry and Rx = Rx])
    show "\<And>c s. dims w h s \<Longrightarrow> dims w h (body (fst c) (snd c) s)"
      by (rule inv)
    show "\<And>c s i. idx w c \<noteq> i \<Longrightarrow> rd (fld (body (fst c) (snd c) s)) i = rd (fld s) i"
      by (simp add: body rd_wr_other idx_def)
    show "rd (fld (body (fst c) (snd c) s)) (idx w c) = rd (fld s) (idx w (fst c + dy, snd c + dx))"
      if "dims w h s" "c \<in> set (grid ys xs)" for c s
    proof -
      have "0 \<le> idx w c" "idx w c < w * h"
        using that(2) ys(3) xs(3) by (auto simp: set_grid intro!: interior_idx)
      then show ?thesis
        using len [OF that(1)] by (simp add: body idx_def rd_wr_same)
    qed
    show "\<not> lexi Ry Rx (fst (y, x) + dy, snd (y, x) + dx) (y, x)"
      using safe by simp
    show "(y, x) \<in> set (grid ys xs)"
      using mem by (simp add: set_grid)
  qed (use ys xs dx start in simp_all)
  then show ?thesis
    by (simp add: idx_def)
qed

lemma keep_N:
  "nE (fold (\<lambda>c. stream_N w (fst c) (snd c)) cs s) = nE s \<and>
   nNE (fold (\<lambda>c. stream_N w (fst c) (snd c)) cs s) = nNE s \<and>
   nS (fold (\<lambda>c. stream_N w (fst c) (snd c)) cs s) = nS s \<and>
   nSE (fold (\<lambda>c. stream_N w (fst c) (snd c)) cs s) = nSE s \<and>
   nW (fold (\<lambda>c. stream_N w (fst c) (snd c)) cs s) = nW s \<and>
   nSW (fold (\<lambda>c. stream_N w (fst c) (snd c)) cs s) = nSW s"
proof -
  have "(\<lambda>t. nE t = nE s \<and> nNE t = nNE s \<and> nS t = nS s \<and> nSE t = nSE s \<and> nW t = nW s \<and> nSW t = nSW s)
          (fold (\<lambda>c. stream_N w (fst c) (snd c)) cs s)"
    by (rule fold_inv) (simp_all add: stream_N_def)
  then show ?thesis by simp
qed

lemma dims_fold_N:
  "dims w h s \<Longrightarrow> dims w h (fold (\<lambda>c. stream_N w (fst c) (snd c)) cs s)"
  by (rule fold_inv) (simp_all add: dims_stream_bodies)

lemma keep_E:
  "nN (fold (\<lambda>c. stream_E w (fst c) (snd c)) cs s) = nN s \<and>
   nNW (fold (\<lambda>c. stream_E w (fst c) (snd c)) cs s) = nNW s \<and>
   nS (fold (\<lambda>c. stream_E w (fst c) (snd c)) cs s) = nS s \<and>
   nSE (fold (\<lambda>c. stream_E w (fst c) (snd c)) cs s) = nSE s \<and>
   nW (fold (\<lambda>c. stream_E w (fst c) (snd c)) cs s) = nW s \<and>
   nSW (fold (\<lambda>c. stream_E w (fst c) (snd c)) cs s) = nSW s"
proof -
  have "(\<lambda>t. nN t = nN s \<and> nNW t = nNW s \<and> nS t = nS s \<and> nSE t = nSE s \<and> nW t = nW s \<and> nSW t = nSW s)
          (fold (\<lambda>c. stream_E w (fst c) (snd c)) cs s)"
    by (rule fold_inv) (simp_all add: stream_E_def)
  then show ?thesis by simp
qed

lemma dims_fold_E:
  "dims w h s \<Longrightarrow> dims w h (fold (\<lambda>c. stream_E w (fst c) (snd c)) cs s)"
  by (rule fold_inv) (simp_all add: dims_stream_bodies)

lemma keep_S:
  "nN (fold (\<lambda>c. stream_S w (fst c) (snd c)) cs s) = nN s \<and>
   nNW (fold (\<lambda>c. stream_S w (fst c) (snd c)) cs s) = nNW s \<and>
   nE (fold (\<lambda>c. stream_S w (fst c) (snd c)) cs s) = nE s \<and>
   nNE (fold (\<lambda>c. stream_S w (fst c) (snd c)) cs s) = nNE s \<and>
   nW (fold (\<lambda>c. stream_S w (fst c) (snd c)) cs s) = nW s \<and>
   nSW (fold (\<lambda>c. stream_S w (fst c) (snd c)) cs s) = nSW s"
proof -
  have "(\<lambda>t. nN t = nN s \<and> nNW t = nNW s \<and> nE t = nE s \<and> nNE t = nNE s \<and> nW t = nW s \<and> nSW t = nSW s)
          (fold (\<lambda>c. stream_S w (fst c) (snd c)) cs s)"
    by (rule fold_inv) (simp_all add: stream_S_def)
  then show ?thesis by simp
qed

lemma dims_fold_S:
  "dims w h s \<Longrightarrow> dims w h (fold (\<lambda>c. stream_S w (fst c) (snd c)) cs s)"
  by (rule fold_inv) (simp_all add: dims_stream_bodies)

lemma keep_W:
  "nN (fold (\<lambda>c. stream_W w (fst c) (snd c)) cs s) = nN s \<and>
   nNW (fold (\<lambda>c. stream_W w (fst c) (snd c)) cs s) = nNW s \<and>
   nE (fold (\<lambda>c. stream_W w (fst c) (snd c)) cs s) = nE s \<and>
   nNE (fold (\<lambda>c. stream_W w (fst c) (snd c)) cs s) = nNE s \<and>
   nS (fold (\<lambda>c. stream_W w (fst c) (snd c)) cs s) = nS s \<and>
   nSE (fold (\<lambda>c. stream_W w (fst c) (snd c)) cs s) = nSE s"
proof -
  have "(\<lambda>t. nN t = nN s \<and> nNW t = nNW s \<and> nE t = nE s \<and> nNE t = nNE s \<and> nS t = nS s \<and> nSE t = nSE s)
          (fold (\<lambda>c. stream_W w (fst c) (snd c)) cs s)"
    by (rule fold_inv) (simp_all add: stream_W_def)
  then show ?thesis by simp
qed

lemma dims_lengths:
  assumes "dims w h s"
  shows "int (length (nN s)) = w * h" "int (length (nNW s)) = w * h"
    "int (length (nE s)) = w * h" "int (length (nNE s)) = w * h"
    "int (length (nS s)) = w * h" "int (length (nSE s)) = w * h"
    "int (length (nW s)) = w * h" "int (length (nSW s)) = w * h"
    "int (length (n0 s)) = w * h" "int (length (rho s)) = w * h"
    "int (length (ux s)) = w * h" "int (length (uy s)) = w * h"
    "int (length (barrier s)) = w * h"
  using assms by (simp_all add: dims_def wf_def)

lemma sweeps_shift:
  assumes "wf s" and "1 \<le> x" "x \<le> xdim s - 2" and "1 \<le> y" "y \<le> ydim s - 2"
  shows "rd (nN (stream_sweeps (stream_reset s))) (x + y * xdim s) = rd (nN s) (x + (y - 1) * xdim s) \<and>
         rd (nNW (stream_sweeps (stream_reset s))) (x + y * xdim s) = rd (nNW s) (x + 1 + (y - 1) * xdim s) \<and>
         rd (nE (stream_sweeps (stream_reset s))) (x + y * xdim s) = rd (nE s) (x - 1 + y * xdim s) \<and>
         rd (nNE (stream_sweeps (stream_reset s))) (x + y * xdim s) = rd (nNE s) (x - 1 + (y - 1) * xdim s) \<and>
         rd (nS (stream_sweeps (stream_reset s))) (x + y * xdim s) = rd (nS s) (x + (y + 1) * xdim s) \<and>
         rd (nSE (stream_sweeps (stream_reset s))) (x + y * xdim s) = rd (nSE s) (x - 1 + (y + 1) * xdim s) \<and>
         rd (nW (stream_sweeps (stream_reset s))) (x + y * xdim s) = rd (nW s) (x + 1 + y * xdim s) \<and>
         rd (nSW (stream_sweeps (stream_reset s))) (x + y * xdim s) = rd (nSW s) (x + 1 + (y + 1) * xdim s)"
proof -
  define w h where "w = xdim s" and "h = ydim s"
  define t0 where "t0 = stream_reset s"
  define t1 where "t1 = fold (\<lambda>c. stream_N w (fst c) (snd c)) (grid (rev [1..h - 2]) [1..w - 2]) t0"
  define t2 where "t2 = fold (\<lambda>c. stream_E w (fst c) (snd c)) (grid (rev [1..h - 2]) (rev [1..w - 2])) t1"
  define t3 where "t3 = fold (\<lambda>c. stream_S w (fst c) (snd c)) (grid [1..h - 2] (rev [1..w - 2])) t2"
  define t4 where "t4 = fold (\<lambda>c. stream_W w (fst c) (snd c)) (grid [1..h - 2] [1..w - 2]) t3"
  have t4: "stream_sweeps (stream_reset s) = t4"
    by (simp add: sweeps_as_folds t4_def t3_def t2_def t1_def t0_def w_def h_def stream_reset_def)
  have d0: "dims w h t0"
    using assms(1) by (simp add: dims_def wf_def t0_def stream_reset_def w_def h_def)
  have d1: "dims w h t1" unfolding t1_def using d0 by (rule dims_fold_N)
  have d2: "dims w h t2" unfolding t2_def using d1 by (rule dims_fold_E)
  have d3: "dims w h t3" unfolding t3_def using d2 by (rule dims_fold_S)
  have bnd: "1 \<le> y" "y \<le> h - 2" "1 \<le> x" "x \<le> w - 2"
    using assms by (simp_all add: w_def h_def)
  have pres: "\<And>y x s. dims w h s \<Longrightarrow> dims w h (s\<lparr>nN := wr (nN s) (x + y * w) (rd (nN s) (x + (y - 1) * w)),
              nNW := wr (nNW s) (x + y * w) (rd (nNW s) (x + 1 + (y - 1) * w))\<rparr>)"
    "\<And>y x s. dims w h s \<Longrightarrow> dims w h (s\<lparr>nE := wr (nE s) (x + y * w) (rd (nE s) (x - 1 + y * w)),
              nNE := wr (nNE s) (x + y * w) (rd (nNE s) (x - 1 + (y - 1) * w))\<rparr>)"
    "\<And>y x s. dims w h s \<Longrightarrow> dims w h (s\<lparr>nS := wr (nS s) (x + y * w) (rd (nS s) (x + (y + 1) * w)),
              nSE := wr (nSE s) (x + y * w) (rd (nSE s) (x - 1 + (y + 1) * w))\<rparr>)"
    "\<And>y x s. dims w h s \<Longrightarrow> dims w h (s\<lparr>nW := wr (nW s) (x + y * w) (rd (nW s) (x + 1 + y * w)),
              nSW := wr (nSW s) (x + y * w) (rd (nSW s) (x + 1 + (y + 1) * w))\<rparr>)"
    by (simp_all add: dims_def wf_def)
  have same0: "nN t0 = nN s" "nNW t0 = nNW s" "nE t0 = nE s" "nNE t0 = nNE s"
    "nS t0 = nS s" "nSE t0 = nSE s" "nW t0 = nW s" "nSW t0 = nSW s"
    by (simp_all add: t0_def stream_reset_def)
  have N: "rd (nN t1) (x + y * w) = rd (nN t0) (x + 0 + (y + (- 1)) * w)"
    unfolding t1_def
    by (rule sweep_field [where h = h and Ry = "(>)" and Rx = "(<)"])
      (simp_all add: stream_N_def dims_lengths sorted_wrt_rev lexi_def bnd pres d0)
  have NW: "rd (nNW t1) (x + y * w) = rd (nNW t0) (x + 1 + (y + (- 1)) * w)"
    unfolding t1_def
    by (rule sweep_field [where h = h and Ry = "(>)" and Rx = "(<)"])
      (simp_all add: stream_N_def dims_lengths sorted_wrt_rev lexi_def bnd pres d0)
  have E: "rd (nE t2) (x + y * w) = rd (nE t1) (x + (- 1) + (y + 0) * w)"
    unfolding t2_def
    by (rule sweep_field [where h = h and Ry = "(>)" and Rx = "(>)"])
      (simp_all add: stream_E_def dims_lengths sorted_wrt_rev lexi_def bnd pres d1)
  have NE: "rd (nNE t2) (x + y * w) = rd (nNE t1) (x + (- 1) + (y + (- 1)) * w)"
    unfolding t2_def
    by (rule sweep_field [where h = h and Ry = "(>)" and Rx = "(>)"])
      (simp_all add: stream_E_def dims_lengths sorted_wrt_rev lexi_def bnd pres d1)
  have S: "rd (nS t3) (x + y * w) = rd (nS t2) (x + 0 + (y + 1) * w)"
    unfolding t3_def
    by (rule sweep_field [where h = h and Ry = "(<)" and Rx = "(>)"])
      (simp_all add: stream_S_def dims_lengths sorted_wrt_rev lexi_def bnd pres d2)
  have SE: "rd (nSE t3) (x + y * w) = rd (nSE t2) (x + (- 1) + (y + 1) * w)"
    unfolding t3_def
    by (rule sweep_field [where h = h and Ry = "(<)" and Rx = "(>)"])
      (simp_all add: stream_S_def dims_lengths sorted_wrt_rev lexi_def bnd pres d2)
  have W: "rd (nW t4) (x + y * w) = rd (nW t3) (x + 1 + (y + 0) * w)"
    unfolding t4_def
    by (rule sweep_field [where h = h and Ry = "(<)" and Rx = "(<)"])
      (simp_all add: stream_W_def dims_lengths sorted_wrt_rev lexi_def bnd pres d3)
  have SW: "rd (nSW t4) (x + y * w) = rd (nSW t3) (x + 1 + (y + 1) * w)"
    unfolding t4_def
    by (rule sweep_field [where h = h and Ry = "(<)" and Rx = "(<)"])
      (simp_all add: stream_W_def dims_lengths sorted_wrt_rev lexi_def bnd pres d3)
  have k1: "nE t1 = nE t0" "nNE t1 = nNE t0" "nS t1 = nS t0" "nSE t1 = nSE t0"
    "nW t1 = nW t0" "nSW t1 = nSW t0"
    using keep_N [of w _ t0] by (simp_all add: t1_def)
  have k2: "nN t2 = nN t1" "nNW t2 = nNW t1" "nS t2 = nS t1" "nSE t2 = nSE t1"
    "nW t2 = nW t1" "nSW t2 = nSW t1"
    using keep_E [of w _ t1] by (simp_all add: t2_def)
  have k3: "nN t3 = nN t2" "nNW t3 = nNW t2" "nE t3 = nE t2" "nNE t3 = nNE t2"
    "nW t3 = nW t2" "nSW t3 = nSW t2"
    using keep_S [of w _ t2] by (simp_all add: t3_def)
  have k4: "nN t4 = nN t3" "nNW t4 = nNW t3" "nE t4 = nE t3" "nNE t4 = nNE t3"
    "nS t4 = nS t3" "nSE t4 = nSE t3"
    using keep_W [of w _ t3] by (simp_all add: t4_def)
  show ?thesis
    unfolding t4 w_def [symmetric]
    using N NW E NE S SE W SW by (simp add: k1 k2 k3 k4 same0)
qed

section \<open>The bounce-back pass\<close>

lemma bounce_as_fold:
  "stream_bounce s =
     fold (\<lambda>c. bounce (xdim s) (fst c) (snd c)) (grid [1..ydim s - 2] [1..xdim s - 2]) s"
  by (simp add: stream_bounce_def loops_fold fold_grid Let_def)

lemma bounce_unflagged: "\<not> flag (barrier s) (idx w c) \<Longrightarrow> bounce w (fst c) (snd c) s = s"
  by (simp add: bounce_def idx_def)

lemma barrier_bounce [simp]: "barrier (bounce w y x s) = barrier s"
  by (simp add: bounce_def Let_def)

lemma barrier_fold_bounce [simp]:
  "barrier (fold (\<lambda>c. bounce w (fst c) (snd c)) cs s) = barrier s"
  by (rule fold_inv [where P = "\<lambda>t. barrier t = barrier s"]) simp_all

lemma fold_bounce_filter:
  "fold (\<lambda>c. bounce w (fst c) (snd c)) cs s =
   fold (\<lambda>c. bounce w (fst c) (snd c)) (filter (\<lambda>c. flag (barrier s) (idx w c)) cs) s"
proof (induction cs arbitrary: s)
  case Nil
  show ?case by simp
next
  case (Cons c cs)
  show ?case
  proof (cases "flag (barrier s) (idx w c)")
    case True
    then show ?thesis
      using Cons.IH [of "bounce w (fst c) (snd c) s"] by simp
  next
    case False
    then show ?thesis
      using Cons.IH [of s] by (simp add: bounce_unflagged)
  qed
qed







lemma fold_inv_mem:
  assumes "\<And>i s. i \<in> set is \<Longrightarrow> P s \<Longrightarrow> P (body i s)" and "P s"
  shows "P (fold body is s)"
  using assms by (induction "is" arbitrary: s) simp_all

lemma dims_bounce: "dims w h s \<Longrightarrow> dims w h (bounce xd y x s)"
  by (simp add: dims_def wf_def bounce_def Let_def)

lemma bounce_reflect:
  assumes fld: "\<And>y x s. fld (bounce w y x s) =
        (if flag (barrier s) (x + y * w)
         then wr (fld s) (x + dx + (y + dy) * w) (rd (opp s) (x + y * w)) else fld s)"
    and opp: "\<And>y x s. opp (bounce w y x s) =
        (if flag (barrier s) (x + y * w)
         then wr (opp s) (x - dx + (y - dy) * w) (rd (fld s) (x + y * w)) else opp s)"
    and len: "\<And>s. dims w h s \<Longrightarrow> int (length (fld s)) = w * h"
    and d: "- 1 \<le> dx" "dx \<le> 1" "- 1 \<le> dy" "dy \<le> 1"
    and cs: "distinct cs"
      "\<And>c. c \<in> set cs \<Longrightarrow> 1 \<le> snd c \<and> snd c \<le> w - 2 \<and> 1 \<le> fst c \<and> fst c \<le> h - 2"
    and c: "(y, x) \<in> set cs" "flag (barrier s) (x + y * w)"
      "\<not> flag (barrier s) (x + dx + (y + dy) * w)"
    and start: "dims w h s"
  shows "rd (fld (fold (\<lambda>c. bounce w (fst c) (snd c)) cs s)) (x + dx + (y + dy) * w)
         = rd (opp s) (x + y * w)"
proof -
  let ?B = "\<lambda>c. bounce w (fst c) (snd c)"
  obtain pre post where split: "cs = pre @ (y, x) # post"
    using c(1) by (auto dest: split_list)
  have xy: "1 \<le> x" "x \<le> w - 2" "1 \<le> y" "y \<le> h - 2"
    using cs(2) [OF c(1)] by simp_all
  define s1 where "s1 = fold ?B pre s"
  have s1: "dims w h s1 \<and> barrier s1 = barrier s \<and> rd (opp s1) (x + y * w) = rd (opp s) (x + y * w)"
    unfolding s1_def
  proof (rule fold_inv_mem [where P = "\<lambda>t. dims w h t \<and> barrier t = barrier s \<and>
        rd (opp t) (x + y * w) = rd (opp s) (x + y * w)"])
    show "dims w h s \<and> barrier s = barrier s \<and> rd (opp s) (x + y * w) = rd (opp s) (x + y * w)"
      using start by simp
    fix e t
    assume e: "e \<in> set pre"
      and t: "dims w h t \<and> barrier t = barrier s \<and> rd (opp t) (x + y * w) = rd (opp s) (x + y * w)"
    have er: "1 \<le> snd e \<and> snd e \<le> w - 2"
      using cs(2) [of e] e split by simp
    have "rd (opp (bounce w (fst e) (snd e) t)) (x + y * w) = rd (opp t) (x + y * w)"
    proof (cases "flag (barrier t) (snd e + fst e * w)")
      case False
      then show ?thesis by (simp add: opp)
    next
      case True
      have "idx w (y, x) \<noteq> idx w (fst e - dy, snd e - dx)"
      proof
        assume "idx w (y, x) = idx w (fst e - dy, snd e - dx)"
        then have "(y, x) = (fst e - dy, snd e - dx)"
          using xy er d by (intro idx_inj [of _ w]) simp_all
        then have "snd e + fst e * w = x + dx + (y + dy) * w"
          by simp
        then show False
          using True t c(3) by simp
      qed
      then show ?thesis
        using True by (simp add: opp rd_wr_other idx_def)
    qed
    then show "dims w h (bounce w (fst e) (snd e) t) \<and> barrier (bounce w (fst e) (snd e) t) = barrier s \<and>
        rd (opp (bounce w (fst e) (snd e) t)) (x + y * w) = rd (opp s) (x + y * w)"
      using t by (simp add: dims_bounce)
  qed
  define s2 where "s2 = bounce w y x s1"
  have rng: "0 \<le> x + dx + (y + dy) * w" "x + dx + (y + dy) * w < w * h"
    using idx_in_range [of "x + dx" w "y + dy" h] xy d by simp_all
  have s2: "barrier s2 = barrier s \<and> rd (fld s2) (x + dx + (y + dy) * w) = rd (opp s) (x + y * w)"
    using s1 c(2) rng len [of s1] by (simp add: s2_def fld rd_wr_same)
  have "barrier (fold ?B post s2) = barrier s \<and>
        rd (fld (fold ?B post s2)) (x + dx + (y + dy) * w) = rd (opp s) (x + y * w)"
  proof (rule fold_inv_mem [where P = "\<lambda>t. barrier t = barrier s \<and>
        rd (fld t) (x + dx + (y + dy) * w) = rd (opp s) (x + y * w)"])
    show "barrier s2 = barrier s \<and> rd (fld s2) (x + dx + (y + dy) * w) = rd (opp s) (x + y * w)"
      by (rule s2)
    fix e t
    assume e: "e \<in> set post"
      and t: "barrier t = barrier s \<and> rd (fld t) (x + dx + (y + dy) * w) = rd (opp s) (x + y * w)"
    have er: "1 \<le> snd e \<and> snd e \<le> w - 2"
      using cs(2) [of e] e split by simp
    have ne: "e \<noteq> (y, x)"
      using cs(1) e split by auto
    have "idx w (y + dy, x + dx) \<noteq> idx w (fst e + dy, snd e + dx)"
    proof
      assume "idx w (y + dy, x + dx) = idx w (fst e + dy, snd e + dx)"
      then have "(y + dy, x + dx) = (fst e + dy, snd e + dx)"
        using xy er d by (intro idx_inj [of _ w]) simp_all
      then show False
        using ne by (simp add: prod_eq_iff)
    qed
    then have "rd (fld (bounce w (fst e) (snd e) t)) (x + dx + (y + dy) * w)
        = rd (fld t) (x + dx + (y + dy) * w)"
      by (simp add: fld rd_wr_other idx_def)
    then show "barrier (bounce w (fst e) (snd e) t) = barrier s \<and>
        rd (fld (bounce w (fst e) (snd e) t)) (x + dx + (y + dy) * w) = rd (opp s) (x + y * w)"
      using t by simp
  qed
  then show ?thesis
    by (simp add: split s1_def s2_def)
qed

section \<open>Accumulators and reflection\<close>

lemma pre_bounce_outside: "outside_stream s (stream_sweeps (stream_reset s))"
  by (intro outside_stream_sweeps outside_stream_reset)

lemma pre_bounce_same [simp]:
  "xdim (stream_sweeps (stream_reset s)) = xdim s"
  "ydim (stream_sweeps (stream_reset s)) = ydim s"
  "barrier (stream_sweeps (stream_reset s)) = barrier s"
  using pre_bounce_outside [of s] by (simp_all add: outside_stream_def)


lemma pre_bounce_dims:
  assumes "wf s"
  shows "dims (xdim s) (ydim s) (stream_sweeps (stream_reset s))"
proof -
  have "dims (xdim s) (ydim s) (stream_reset s)"
    using assms by (simp add: dims_def wf_def stream_reset_def)
  then show ?thesis
    unfolding stream_sweeps_def Let_def
    by (intro for_lt_inv [where P = "dims (xdim s) (ydim s)"]
        for_gt_inv [where P = "dims (xdim s) (ydim s)"] dims_stream_bodies)
qed

lemma stream_as_fold:
  "stream s = fold (\<lambda>c. bounce (xdim s) (fst c) (snd c)) (grid [1..ydim s - 2] [1..xdim s - 2])
                (stream_sweeps (stream_reset s))"
  by (simp add: stream_def bounce_as_fold)


text \<open>
  C7 (amended). After \<open>stream()\<close>, for an interior barrier cell \<open>(x, y)\<close> whose eight
  neighbours are all fluid, the West-slot population that the sweeps left at the
  barrier cell (the value that arrived from the East) is found in the East slot
  \<open>nE\<close> of the East neighbour \<open>(x + 1, y)\<close>.
\<close>

theorem bounce_back_east:
  assumes "wf s" and "1 \<le> x" "x \<le> xdim s - 2" and "1 \<le> y" "y \<le> ydim s - 2"
    and "flag (barrier s) (x + y * xdim s)"
    and "\<not> flag (barrier s) (x + 1 + y * xdim s)" "\<not> flag (barrier s) (x - 1 + y * xdim s)"
    and "\<not> flag (barrier s) (x + (y + 1) * xdim s)" "\<not> flag (barrier s) (x + (y - 1) * xdim s)"
    and "\<not> flag (barrier s) (x + 1 + (y + 1) * xdim s)" "\<not> flag (barrier s) (x - 1 + (y + 1) * xdim s)"
    and "\<not> flag (barrier s) (x + 1 + (y - 1) * xdim s)" "\<not> flag (barrier s) (x - 1 + (y - 1) * xdim s)"
  shows "rd (nE (stream s)) (x + 1 + y * xdim s) =
         rd (nW (stream_sweeps (stream_reset s))) (x + y * xdim s)"
proof -
  define w h where "w = xdim s" and "h = ydim s"
  define p where "p = stream_sweeps (stream_reset s)"
  have "rd (nE (fold (\<lambda>c. bounce w (fst c) (snd c)) (grid [1..h - 2] [1..w - 2]) p)) (x + 1 + (y + 0) * w)
        = rd (nW p) (x + y * w)"
  proof (rule bounce_reflect [where h = h and opp = nW])
    show "dims w h p"
      using assms(1) by (simp add: p_def w_def h_def pre_bounce_dims)
    show "(y, x) \<in> set (grid [1..h - 2] [1..w - 2])"
      using assms(2-5) by (simp add: set_grid w_def h_def)
    show "flag (barrier p) (x + y * w)" "\<not> flag (barrier p) (x + 1 + (y + 0) * w)"
      using assms(6,7) by (simp_all add: p_def w_def)
    show "\<And>c. c \<in> set (grid [1..h - 2] [1..w - 2]) \<Longrightarrow>
        1 \<le> snd c \<and> snd c \<le> w - 2 \<and> 1 \<le> fst c \<and> fst c \<le> h - 2"
      by (auto simp: set_grid)
  qed (simp_all add: bounce_def Let_def dims_lengths distinct_grid)
  then show ?thesis
    by (simp add: stream_as_fold p_def w_def h_def)
qed

lemma one_barrier_fields:
  "xdim one_barrier = 5" "ydim one_barrier = 5"
  "barrier one_barrier = (replicate 25 0)[12 := 1]"
  "nW one_barrier = (replicate 25 (Fin 0))[13 := Fin 7]"
  "nE one_barrier = replicate 25 (Fin 0)"
  by (simp_all add: one_barrier_def addBarrier_def new_lbm_def wr_def Let_def)

lemma wf_one_barrier: "wf one_barrier"
  by (simp add: one_barrier_def addBarrier_def new_lbm_def wf_def Let_def)

lemma one_barrier_cells: "barrier_cells one_barrier = [(2, 2)]"
  by (simp add: barrier_cells_def one_barrier_fields grid_def upto.simps idx_def flag_def)

lemma one_barrier_pre:
  "rd (nW (stream_sweeps (stream_reset one_barrier))) 12 = Fin 7"
  "rd (nE (stream_sweeps (stream_reset one_barrier))) 11 = Fin 0"
  using sweeps_shift [OF wf_one_barrier, of 2 2] sweeps_shift [OF wf_one_barrier, of 1 2]
  by (simp_all add: one_barrier_fields rd_def)

lemma one_barrier_stream:
  "stream one_barrier = bounce 5 2 2 (stream_sweeps (stream_reset one_barrier))"
proof -
  have "stream one_barrier =
      fold (\<lambda>c. bounce 5 (fst c) (snd c)) (barrier_cells one_barrier)
        (stream_sweeps (stream_reset one_barrier))"
    unfolding stream_as_fold barrier_cells_def
    by (subst fold_bounce_filter) (simp add: one_barrier_fields)
  then show ?thesis
    by (simp add: one_barrier_cells)
qed

text \<open>
  The East slot of the West neighbour \<open>(x - 1, y)\<close> does not receive that value: on
  the example lattice the barrier cell \<open>(2, 2)\<close> holds 7 in its West slot after the
  sweeps, and \<open>nE\<close> at \<open>(1, 2)\<close> is 0 after \<open>stream()\<close>.
\<close>

theorem bounce_back_west_counterexample:
  "flag (barrier one_barrier) (2 + 2 * 5) \<and>
   \<not> flag (barrier one_barrier) (3 + 2 * 5) \<and> \<not> flag (barrier one_barrier) (1 + 2 * 5) \<and>
   \<not> flag (barrier one_barrier) (2 + 3 * 5) \<and> \<not> flag (barrier one_barrier) (2 + 1 * 5) \<and>
   \<not> flag (barrier one_barrier) (3 + 3 * 5) \<and> \<not> flag (barrier one_barrier) (1 + 3 * 5) \<and>
   \<not> flag (barrier one_barrier) (3 + 1 * 5) \<and> \<not> flag (barrier one_barrier) (1 + 1 * 5) \<and>
   rd (nW (stream_sweeps (stream_reset one_barrier))) (2 + 2 * 5) = Fin 7 \<and>
   rd (nE (stream one_barrier)) (2 - 1 + 2 * 5) = Fin 0"
proof -
  have "rd (nE (stream one_barrier)) 11 = rd (nE (stream_sweeps (stream_reset one_barrier))) 11"
    by (simp add: one_barrier_stream bounce_def Let_def rd_wr_other)
  then show ?thesis
    by (simp add: one_barrier_pre one_barrier_fields flag_def)
qed

theorem bounce_back_east_witness:
  "wf one_barrier \<and> flag (barrier one_barrier) 12 \<and> rd (nE (stream one_barrier)) 13 = Fin 7"
proof -
  have "rd (nE (stream one_barrier)) (2 + 1 + 2 * xdim one_barrier) =
        rd (nW (stream_sweeps (stream_reset one_barrier))) (2 + 2 * xdim one_barrier)"
    by (rule bounce_back_east [OF wf_one_barrier])
      (simp_all add: one_barrier_fields flag_def)
  then show ?thesis
    by (simp add: wf_one_barrier one_barrier_fields one_barrier_pre flag_def)
qed








section \<open>Cell-local updates and the push\<close>

lemma fold_other_inv:
  assumes inv: "\<And>c s. I s \<Longrightarrow> I (body c s)"
    and other: "\<And>c s. I s \<Longrightarrow> c \<in> set cs \<Longrightarrow> key c \<noteq> i \<Longrightarrow> get (body c s) i = get s i"
    and start: "I s"
    and notin: "i \<notin> key ` set cs"
  shows "get (fold body cs s) i = get s i"
proof -
  have "I (fold body cs s) \<and> get (fold body cs s) i = get s i"
  proof (rule fold_inv_mem [where P = "\<lambda>t. I t \<and> get t i = get s i"])
    show "I s \<and> get s i = get s i"
      using start by simp
    fix c t
    assume "c \<in> set cs" "I t \<and> get t i = get s i"
    then show "I (body c t) \<and> get (body c t) i = get s i"
      using inv [of t c] other [of t c] notin by auto
  qed
  then show ?thesis ..
qed

lemma fold_at_inv:
  assumes inv: "\<And>c s. I s \<Longrightarrow> I (body c s)"
    and other: "\<And>c s i. I s \<Longrightarrow> c \<in> set cs \<Longrightarrow> key c \<noteq> i \<Longrightarrow> get (body c s) i = get s i"
    and at: "\<And>c s. I s \<Longrightarrow> c \<in> set cs \<Longrightarrow> get (body c s) (key c) = F c (get s (key c))"
    and dist: "distinct (map key cs)"
    and start: "I s"
    and mem: "c \<in> set cs"
  shows "get (fold body cs s) (key c) = F c (get s (key c))"
proof -
  obtain pre post where split: "cs = pre @ c # post"
    using mem by (auto dest: split_list)
  have post: "key c \<notin> key ` set post" and pre: "key c \<notin> key ` set pre"
    using dist split by auto
  have mid: "I (fold body pre s)"
    using inv start by (rule fold_inv)
  have "get (fold body cs s) (key c) = get (fold body post (body c (fold body pre s))) (key c)"
    by (simp add: split)
  also have "\<dots> = get (body c (fold body pre s)) (key c)"
  proof (rule fold_other_inv [where I = I and key = key])
    show "\<And>c s. I s \<Longrightarrow> I (body c s)" by (rule inv)
    show "I (body c (fold body pre s))" using mid by (rule inv)
    show "key c \<notin> key ` set post" by (rule post)
    show "\<And>d s. I s \<Longrightarrow> d \<in> set post \<Longrightarrow> key d \<noteq> key c \<Longrightarrow>
        get (body d s) (key c) = get s (key c)"
      using other by (simp add: split)
  qed
  also have "\<dots> = F c (get (fold body pre s) (key c))"
    using at mid mem by simp
  also have "get (fold body pre s) (key c) = get s (key c)"
  proof (rule fold_other_inv [where I = I and key = key])
    show "\<And>c s. I s \<Longrightarrow> I (body c s)" by (rule inv)
    show "I s" by (rule start)
    show "key c \<notin> key ` set pre" by (rule pre)
    show "\<And>d s. I s \<Longrightarrow> d \<in> set pre \<Longrightarrow> key d \<noteq> key c \<Longrightarrow>
        get (body d s) (key c) = get s (key c)"
      using other by (simp add: split)
  qed
  finally show ?thesis .
qed

lemma dims_setEquil: "dims w h s \<Longrightarrow> dims w h (setEquil x y vx vy ro s)"
  by (simp add: dims_def wf_def setEquil_def Let_def)

lemma setEquil_other:
  assumes "i \<noteq> x + y * xdim s"
  shows "pops (setEquil x y vx vy ro s) i = pops s i"
    and "macro (setEquil x y vx vy ro s) i = macro s i"
  using assms by (simp_all add: pops_def macro_def setEquil_def Let_def rd_wr_other)

lemma setEquil_at:
  assumes "dims w h s" "0 \<le> x" "x < w" "0 \<le> y" "y < h"
  shows "pops (setEquil x y vx vy ro s) (x + y * w) =
           equil (case ro of None \<Rightarrow> rd (rho s) (x + y * w) | Some r \<Rightarrow> r) vx vy"
    and "macro (setEquil x y vx vy ro s) (x + y * w) =
           [case ro of None \<Rightarrow> rd (rho s) (x + y * w) | Some r \<Rightarrow> r, vx, vy]"
proof -
  have r: "0 \<le> x + y * w" "x + y * w < w * h"
    using idx_in_range [of x w y h] assms by simp_all
  have w: "xdim s = w"
    using assms(1) by (simp add: dims_def)
  note len = dims_lengths [OF assms(1)]
  show "pops (setEquil x y vx vy ro s) (x + y * w) =
           equil (case ro of None \<Rightarrow> rd (rho s) (x + y * w) | Some r \<Rightarrow> r) vx vy"
    using r len by (simp add: pops_def equil_def setEquil_def Let_def w rd_wr_same)
  show "macro (setEquil x y vx vy ro s) (x + y * w) =
           [case ro of None \<Rightarrow> rd (rho s) (x + y * w) | Some r \<Rightarrow> r, vx, vy]"
    using r len by (simp add: macro_def setEquil_def Let_def w rd_wr_same)
qed

lemma push_as_fold:
  assumes "3 < x \<and> x < xdim s - 4 \<and> 3 < y \<and> y < ydim s - 4"
  shows "pushFluid x y vx vy s =
         fold (\<lambda>c. setEquil (snd c) (fst c) vx vy None) (push_cells x y) s"
proof -
  have g: "x > 3 \<and> x < xdim s - 1 - 3 \<and> y > 3 \<and> y < ydim s - 1 - 3"
    using assms by simp
  show ?thesis
    unfolding pushFluid_def Let_def push_cells_def loops_fold
    by (simp only: g if_True) (simp add: upto.simps)
qed

lemma push_cells_range:
  assumes "c \<in> set (push_cells x y)"
  shows "x - 2 \<le> snd c \<and> snd c \<le> x + 2 \<and> y - 2 \<le> fst c \<and> fst c \<le> y + 2"
  using assms by (auto simp: push_cells_def)

lemma distinct_push_cells: "distinct (push_cells x y)"
  by (simp add: push_cells_def upto.simps)

lemma cells_keep:
  "(setEquil x y vx vy ro t)\<lparr>n0 := n0 s, nN := nN s, nS := nS s, nE := nE s, nW := nW s, nNE := nNE s, nSE := nSE s, nNW := nNW s, nSW := nSW s, rho := rho s, ux := ux s, uy := uy s\<rparr> = t\<lparr>n0 := n0 s, nN := nN s, nS := nS s, nE := nE s, nW := nW s, nNE := nNE s, nSE := nSE s, nNW := nNW s, nSW := nSW s, rho := rho s, ux := ux s, uy := uy s\<rparr>"
  by (simp add: setEquil_def Let_def)

text \<open>
  C9 (amended). On a constructed lattice, \<open>pushFluid(x, y, ux, uy)\<close> with \<open>(x, y)\<close>
  more than 3 cells from every edge (\<open>3 < x < xdim - 4\<close>, \<open>3 < y < ydim - 4\<close>) writes
  to each cross cell and each cell of the 5 by 3 block the equilibrium populations at
  velocity \<open>(ux, uy)\<close> and the density \<open>rho\<close> holds for that cell, and records the
  velocity in \<open>ux\<close>, \<open>uy\<close>; at every other index the populations and the macroscopic
  entries are as before, and nothing but these twelve arrays changes. For every other
  \<open>(x, y)\<close> the call returns the state unchanged.
\<close>

theorem pushFluid_effect:
  assumes "wf s"
  shows "(3 < x \<and> x < xdim s - 4 \<and> 3 < y \<and> y < ydim s - 4 \<longrightarrow>
           (\<forall>c\<in>set (push_cells x y).
              pops (pushFluid x y vx vy s) (idx (xdim s) c) = equil (rd (rho s) (idx (xdim s) c)) vx vy \<and>
              macro (pushFluid x y vx vy s) (idx (xdim s) c) = [rd (rho s) (idx (xdim s) c), vx, vy]) \<and>
           (\<forall>i. i \<notin> idx (xdim s) ` set (push_cells x y) \<longrightarrow>
              pops (pushFluid x y vx vy s) i = pops s i \<and> macro (pushFluid x y vx vy s) i = macro s i) \<and>
           (pushFluid x y vx vy s)\<lparr>n0 := n0 s, nN := nN s, nS := nS s, nE := nE s, nW := nW s, nNE := nNE s, nSE := nSE s, nNW := nNW s, nSW := nSW s, rho := rho s, ux := ux s, uy := uy s\<rparr> = s) \<and>
         (\<not> (3 < x \<and> x < xdim s - 4 \<and> 3 < y \<and> y < ydim s - 4) \<longrightarrow> pushFluid x y vx vy s = s)"
proof (intro conjI impI ballI allI)
  assume "\<not> (3 < x \<and> x < xdim s - 4 \<and> 3 < y \<and> y < ydim s - 4)"
  then have "\<not> (x > 3 \<and> x < xdim s - 1 - 3 \<and> y > 3 \<and> y < ydim s - 1 - 3)"
    by simp
  then show "pushFluid x y vx vy s = s"
    unfolding pushFluid_def Let_def by (simp only: if_False)
next
  assume g: "3 < x \<and> x < xdim s - 4 \<and> 3 < y \<and> y < ydim s - 4"
  define w h where "w = xdim s" and "h = ydim s"
  define B where "B = (\<lambda>c. setEquil (snd c) (fst c) vx vy None)"
  define get where "get = (\<lambda>t i. (pops t i, macro t i))"
  define F where "F = (\<lambda>c :: int \<times> int. \<lambda>v :: num list \<times> num list. (equil (hd (snd v)) vx vy, [hd (snd v), vx, vy]))"
  have d: "dims w h s"
    using assms by (simp add: dims_def w_def h_def)
  have pf: "pushFluid x y vx vy s = fold B (push_cells x y) s"
    using g by (simp add: push_as_fold B_def)
  have rng: "0 \<le> snd c \<and> snd c < w \<and> 0 \<le> fst c \<and> fst c < h" if "c \<in> set (push_cells x y)" for c
    using push_cells_range [OF that] g by (simp add: w_def h_def)
  have inv: "\<And>c t. dims w h t \<Longrightarrow> dims w h (B c t)"
    by (simp add: B_def dims_setEquil)
  have other: "\<And>c t i. dims w h t \<Longrightarrow> idx w c \<noteq> i \<Longrightarrow> get (B c t) i = get t i"
    by (simp add: get_def B_def idx_def dims_def setEquil_other)
  have at: "get (B c t) (idx w c) = F c (get t (idx w c))"
    if "dims w h t" "c \<in> set (push_cells x y)" for c t
    using setEquil_at [OF that(1), of "snd c" "fst c" vx vy None] rng [OF that(2)]
    by (simp add: get_def B_def F_def idx_def macro_def)
  have dist: "distinct (map (idx w) (push_cells x y))"
    unfolding distinct_map using rng by (simp add: distinct_push_cells inj_on_idx)
  show "(pushFluid x y vx vy s)\<lparr>n0 := n0 s, nN := nN s, nS := nS s, nE := nE s, nW := nW s, nNE := nNE s, nSE := nSE s, nNW := nNW s, nSW := nSW s, rho := rho s, ux := ux s, uy := uy s\<rparr> = s"
    unfolding pf
    by (rule fold_inv [where P = "\<lambda>t. t\<lparr>n0 := n0 s, nN := nN s, nS := nS s, nE := nE s, nW := nW s, nNE := nNE s, nSE := nSE s, nNW := nNW s, nSW := nSW s, rho := rho s, ux := ux s, uy := uy s\<rparr> = s"]) (simp_all add: B_def cells_keep)
  {
    fix c
    assume c: "c \<in> set (push_cells x y)"
    have "get (fold B (push_cells x y) s) (idx w c) = F c (get s (idx w c))"
      by (rule fold_at_inv [where I = "dims w h"]) (use inv other at dist d c in simp_all)
    then show "pops (pushFluid x y vx vy s) (idx (xdim s) c) = equil (rd (rho s) (idx (xdim s) c)) vx vy"
      and "macro (pushFluid x y vx vy s) (idx (xdim s) c) = [rd (rho s) (idx (xdim s) c), vx, vy]"
      by (simp_all add: pf get_def F_def w_def macro_def)
  }
  {
    fix i
    assume i: "i \<notin> idx (xdim s) ` set (push_cells x y)"
    have "get (fold B (push_cells x y) s) i = get s i"
      by (rule fold_other_inv [where I = "dims w h" and key = "idx w"])
        (use inv other d i in \<open>simp_all add: w_def\<close>)
    then show "pops (pushFluid x y vx vy s) i = pops s i"
      and "macro (pushFluid x y vx vy s) i = macro s i"
      by (simp_all add: pf get_def)
  }
qed

lemma push_example_fields:
  "xdim push_example = 9" "ydim push_example = 9"
  "rho push_example = replicate 81 (Fin 1)"
  "nE push_example = replicate 81 (Fin 0)"
  "ux push_example = replicate 81 (Fin 0)"
  by (simp_all add: push_example_def new_lbm_def Let_def)

lemma wf_push_example: "wf push_example"
  by (simp add: push_example_def new_lbm_def wf_def Let_def)

theorem pushFluid_effect_witness:
  "wf push_example \<and>
   pops (pushFluid 4 4 (Fin 1) (Fin 0) push_example) (4 + 4 * 9) = equil (Fin 1) (Fin 1) (Fin 0) \<and>
   macro (pushFluid 4 4 (Fin 1) (Fin 0) push_example) (4 + 4 * 9) = [Fin 1, Fin 1, Fin 0] \<and>
   pops (pushFluid 4 4 (Fin 1) (Fin 0) push_example) (1 + 4 * 9) = pops push_example (1 + 4 * 9) \<and>
   pushFluid 3 4 (Fin 1) (Fin 0) push_example = push_example"
proof -
  have c: "(4, 4) \<in> set (push_cells 4 4)"
    by (simp add: push_cells_def upto.simps)
  have i: "37 \<notin> idx (xdim push_example) ` set (push_cells 4 4)"
    by (simp add: push_cells_def upto.simps idx_def push_example_fields)
  have g: "3 < (4::int) \<and> 4 < xdim push_example - 4 \<and> 3 < (4::int) \<and> 4 < ydim push_example - 4"
    by (simp add: push_example_fields)
  note e = pushFluid_effect [OF wf_push_example, of 4 4 "Fin 1" "Fin 0", THEN conjunct1, rule_format, OF g]
  have "pops (pushFluid 4 4 (Fin 1) (Fin 0) push_example) (idx (xdim push_example) (4, 4)) =
          equil (rd (rho push_example) (idx (xdim push_example) (4, 4))) (Fin 1) (Fin 0) \<and>
        macro (pushFluid 4 4 (Fin 1) (Fin 0) push_example) (idx (xdim push_example) (4, 4)) =
          [rd (rho push_example) (idx (xdim push_example) (4, 4)), Fin 1, Fin 0]"
    using e [THEN conjunct1] c by (rule bspec)
  moreover have "pops (pushFluid 4 4 (Fin 1) (Fin 0) push_example) 37 = pops push_example 37"
    using e [THEN conjunct2, THEN conjunct1] i by simp
  moreover have "pushFluid 3 4 (Fin 1) (Fin 0) push_example = push_example"
    using pushFluid_effect [OF wf_push_example, of 3 4 "Fin 1" "Fin 0"]
    by (simp add: push_example_fields)
  ultimately show ?thesis
    by (simp add: push_example_fields wf_push_example idx_def rd_def)
qed

text \<open>
  At exactly 3 cells from an edge the push is already ignored: on the 9 by 9 example,
  \<open>(3, 4)\<close> is 3 cells from the left edge and at least 3 cells from the others, yet
  \<open>pushFluid(3, 4, 1, 0)\<close> changes nothing, where the equilibrium East population at
  velocity \<open>(1, 0)\<close> would be 7/9.
\<close>

theorem pushFluid_margin_counterexample:
  "(3::int) \<le> 3 \<and> (3::int) \<le> 9 - 1 - 3 \<and> (3::int) \<le> 4 \<and> (4::int) \<le> 9 - 1 - 4 \<and>
   xdim push_example = 9 \<and> ydim push_example = 9 \<and>
   pushFluid 3 4 (Fin 1) (Fin 0) push_example = push_example \<and>
   rd (ux (pushFluid 3 4 (Fin 1) (Fin 0) push_example)) (3 + 4 * 9) = Fin 0 \<and>
   rd (nE (pushFluid 3 4 (Fin 1) (Fin 0) push_example)) (3 + 4 * 9) = Fin 0 \<and>
   equil (rd (rho push_example) (3 + 4 * 9)) (Fin 1) (Fin 0) ! 1 = Fin (7 / 9)"
proof -
  have "pushFluid 3 4 (Fin 1) (Fin 0) push_example = push_example"
    by (simp add: pushFluid_def Let_def)
  then show ?thesis
    by (simp add: push_example_fields rd_def equil_def Let_def consts_fin)
qed

section \<open>Collision\<close>

lemma fold_at_direct:
  assumes inv: "\<And>c s. I s \<Longrightarrow> I (body c s)"
    and other: "\<And>c s i. I s \<Longrightarrow> c \<in> set cs \<Longrightarrow> key c \<noteq> i \<Longrightarrow> get (body c s) i = get s i"
    and cong: "\<And>s t. I s \<Longrightarrow> I t \<Longrightarrow> get s (key c) = get t (key c) \<Longrightarrow>
                 get (body c s) (key c) = get (body c t) (key c)"
    and dist: "distinct (map key cs)"
    and start: "I s"
    and mem: "c \<in> set cs"
  shows "get (fold body cs s) (key c) = get (body c s) (key c)"
proof -
  obtain pre post where split: "cs = pre @ c # post"
    using mem by (auto dest: split_list)
  have post: "key c \<notin> key ` set post" and pre: "key c \<notin> key ` set pre"
    using dist split by auto
  have mid: "I (fold body pre s)"
    using inv start by (rule fold_inv)
  have same: "get (fold body pre s) (key c) = get s (key c)"
  proof (rule fold_other_inv [where I = I and key = key])
    show "\<And>c s. I s \<Longrightarrow> I (body c s)" by (rule inv)
    show "I s" by (rule start)
    show "key c \<notin> key ` set pre" by (rule pre)
    show "\<And>d s. I s \<Longrightarrow> d \<in> set pre \<Longrightarrow> key d \<noteq> key c \<Longrightarrow>
        get (body d s) (key c) = get s (key c)"
      using other by (simp add: split)
  qed
  have "get (fold body cs s) (key c) = get (fold body post (body c (fold body pre s))) (key c)"
    by (simp add: split)
  also have "\<dots> = get (body c (fold body pre s)) (key c)"
  proof (rule fold_other_inv [where I = I and key = key])
    show "\<And>c s. I s \<Longrightarrow> I (body c s)" by (rule inv)
    show "I (body c (fold body pre s))" using mid by (rule inv)
    show "key c \<notin> key ` set post" by (rule post)
    show "\<And>d s. I s \<Longrightarrow> d \<in> set post \<Longrightarrow> key d \<noteq> key c \<Longrightarrow>
        get (body d s) (key c) = get s (key c)"
      using other by (simp add: split)
  qed
  also have "\<dots> = get (body c s) (key c)"
    using mid start same by (rule cong)
  finally show ?thesis .
qed

lemma dims_collide_cell: "dims w h s \<Longrightarrow> dims w h (collide_cell omega y x s)"
  by (simp add: dims_def wf_def collide_cell_def Let_def)

lemma dims_collide_east: "dims w h s \<Longrightarrow> dims w h (collide_east y s)"
  by (simp add: dims_def wf_def collide_east_def Let_def)

lemma collide_as_folds:
  assumes "dims w h s"
  shows "collide_interior omega s =
           fold (\<lambda>c. collide_cell omega (fst c) (snd c)) (grid [1..h - 2] [1..w - 2]) s"
    and "collide omega s = fold collide_east [1..h - 3] (collide_interior omega s)"
proof -
  have row: "dims w h (fold (collide_cell omega y) xs t)" if "dims w h t" for y xs t
    using that by (intro fold_inv [where P = "dims w h"] dims_collide_cell)
  have rows: "fold (\<lambda>y t. fold (collide_cell omega y) [1..xdim t - 2] t) ys t =
              fold (\<lambda>y. fold (collide_cell omega y) [1..w - 2]) ys t" if "dims w h t" for ys t
    using that
  proof (induction ys arbitrary: t)
    case Nil
    show ?case by simp
  next
    case (Cons y ys)
    have "xdim t = w"
      using Cons.prems by (simp add: dims_def)
    then show ?case
      using Cons.IH [OF row [OF Cons.prems]] by simp
  qed
  have h: "ydim s = h"
    using assms by (simp add: dims_def)
  show int: "collide_interior omega s =
      fold (\<lambda>c. collide_cell omega (fst c) (snd c)) (grid [1..h - 2] [1..w - 2]) s"
    using rows [OF assms] by (simp add: collide_interior_def loops_fold h fold_grid)
  have "dims w h (collide_interior omega s)"
    unfolding int using assms by (intro fold_inv [where P = "dims w h"] dims_collide_cell)
  then have "ydim (collide_interior omega s) = h"
    by (simp add: dims_def)
  then show "collide omega s = fold collide_east [1..h - 3] (collide_interior omega s)"
    by (simp add: collide_def Let_def loops_fold)
qed

lemma collide_cell_other:
  assumes "i \<noteq> x + y * xdim s"
  shows "pops (collide_cell omega y x s) i = pops s i"
    and "macro (collide_cell omega y x s) i = macro s i"
  using assms by (simp_all add: pops_def macro_def collide_cell_def Let_def rd_wr_other)

lemma collide_east_other:
  assumes "i \<noteq> xdim s - 1 + y * xdim s"
  shows "pops (collide_east y s) i = pops s i"
    and "macro (collide_east y s) i = macro s i"
  using assms by (simp_all add: pops_def macro_def collide_east_def Let_def rd_wr_other)

lemma collide_cell_cong:
  assumes "dims w h s" "dims w h t" "0 \<le> x + y * w" "x + y * w < w * h"
    and "pops s (x + y * w) = pops t (x + y * w)"
  shows "pops (collide_cell omega y x s) (x + y * w) = pops (collide_cell omega y x t) (x + y * w)"
    and "macro (collide_cell omega y x s) (x + y * w) = macro (collide_cell omega y x t) (x + y * w)"
proof -
  have w: "xdim s = w" "xdim t = w"
    using assms(1,2) by (simp_all add: dims_def)
  have m: "popsum s (x + y * w) = popsum t (x + y * w)"
    "xmoment s (x + y * w) = xmoment t (x + y * w)"
    "ymoment s (x + y * w) = ymoment t (x + y * w)"
    using assms(5) by (simp_all add: pops_def popsum_def xmoment_def ymoment_def)
  note ls = dims_lengths [OF assms(1)] and lt = dims_lengths [OF assms(2)]
  have r: "rd (n0 s) (x + y * w) = rd (n0 t) (x + y * w)" "rd (nE s) (x + y * w) = rd (nE t) (x + y * w)"
    "rd (nW s) (x + y * w) = rd (nW t) (x + y * w)" "rd (nN s) (x + y * w) = rd (nN t) (x + y * w)"
    "rd (nS s) (x + y * w) = rd (nS t) (x + y * w)" "rd (nNE s) (x + y * w) = rd (nNE t) (x + y * w)"
    "rd (nSE s) (x + y * w) = rd (nSE t) (x + y * w)" "rd (nNW s) (x + y * w) = rd (nNW t) (x + y * w)"
    "rd (nSW s) (x + y * w) = rd (nSW t) (x + y * w)"
    using assms(5) by (simp_all add: pops_def)
  show "pops (collide_cell omega y x s) (x + y * w) = pops (collide_cell omega y x t) (x + y * w)"
    using assms(3,4) ls lt
    by (simp add: pops_def collide_cell_def Let_def w rd_wr_same m r)
  show "macro (collide_cell omega y x s) (x + y * w) = macro (collide_cell omega y x t) (x + y * w)"
    using assms(3,4) ls lt
    by (simp add: macro_def collide_cell_def Let_def w rd_wr_same m)
qed

lemma collide_at:
  assumes "dims w h s" "1 \<le> x" "x \<le> w - 2" "1 \<le> y" "y \<le> h - 2"
  shows "pops (collide omega s) (x + y * w) = pops (collide_cell omega y x s) (x + y * w)"
    and "macro (collide omega s) (x + y * w) = macro (collide_cell omega y x s) (x + y * w)"
proof -
  define get where "get = (\<lambda>t i. (pops t i, macro t i))"
  define cs where "cs = grid [1..h - 2] [1..w - 2]"
  have rng: "0 \<le> snd c \<and> snd c < w" if "c \<in> set cs" for c
    using that by (auto simp: cs_def set_grid)
  have mem: "(y, x) \<in> set cs"
    using assms(2-5) by (simp add: cs_def set_grid)
  have r: "0 \<le> x + y * w" "x + y * w < w * h"
    using idx_in_range [of x w y h] assms(2-5) by simp_all
  have int: "get (collide_interior omega s) (idx w (y, x)) =
             get (collide_cell omega (fst (y, x)) (snd (y, x)) s) (idx w (y, x))"
    unfolding collide_as_folds(1) [OF assms(1)] cs_def [symmetric]
  proof (rule fold_at_direct [where I = "dims w h" and key = "idx w"])
    show "\<And>c s. dims w h s \<Longrightarrow> dims w h (collide_cell omega (fst c) (snd c) s)"
      by (rule dims_collide_cell)
    show "\<And>c s i. dims w h s \<Longrightarrow> c \<in> set cs \<Longrightarrow> idx w c \<noteq> i \<Longrightarrow>
        get (collide_cell omega (fst c) (snd c) s) i = get s i"
      by (simp add: get_def idx_def dims_def collide_cell_other)
    show "get (collide_cell omega (fst (y, x)) (snd (y, x)) s) (idx w (y, x)) =
          get (collide_cell omega (fst (y, x)) (snd (y, x)) t) (idx w (y, x))"
      if "dims w h s" "dims w h t" "get s (idx w (y, x)) = get t (idx w (y, x))" for s t
    proof -
      have "pops s (x + y * w) = pops t (x + y * w)"
        using that(3) by (simp add: get_def idx_def)
      then show ?thesis
        using collide_cell_cong [OF that(1,2) r, of omega] by (simp add: get_def idx_def)
    qed
    show "distinct (map (idx w) cs)"
      unfolding distinct_map using rng by (simp add: cs_def distinct_grid inj_on_idx)
    show "dims w h s" by (rule assms(1))
    show "(y, x) \<in> set cs" by (rule mem)
  qed
  have d1: "dims w h (collide_interior omega s)"
    unfolding collide_as_folds(1) [OF assms(1)]
    using assms(1) by (intro fold_inv [where P = "dims w h"] dims_collide_cell)
  have "get (collide omega s) (idx w (y, x)) = get (collide_interior omega s) (idx w (y, x))"
    unfolding collide_as_folds(2) [OF assms(1)]
  proof (rule fold_other_inv [where I = "dims w h" and key = "\<lambda>y. idx w (y, w - 1)"])
    show "\<And>c s. dims w h s \<Longrightarrow> dims w h (collide_east c s)"
      by (rule dims_collide_east)
    show "\<And>c s. dims w h s \<Longrightarrow> c \<in> set [1..h - 3] \<Longrightarrow> idx w (c, w - 1) \<noteq> idx w (y, x) \<Longrightarrow>
        get (collide_east c s) (idx w (y, x)) = get s (idx w (y, x))"
      by (simp add: get_def idx_def dims_def collide_east_other)
    show "dims w h (collide_interior omega s)" by (rule d1)
    show "idx w (y, x) \<notin> (\<lambda>y. idx w (y, w - 1)) ` set [1..h - 3]"
    proof
      assume "idx w (y, x) \<in> (\<lambda>y. idx w (y, w - 1)) ` set [1..h - 3]"
      then obtain y' where "idx w (y, x) = idx w (y', w - 1)"
        by auto
      then have "(y, x) = (y', w - 1)"
        using assms(2,3) by (intro idx_inj [of _ w]) simp_all
      then show False
        using assms(3) by simp
    qed
  qed
  then show "pops (collide omega s) (x + y * w) = pops (collide_cell omega y x s) (x + y * w)"
    and "macro (collide omega s) (x + y * w) = macro (collide_cell omega y x s) (x + y * w)"
    using int by (simp_all add: get_def idx_def)
qed

lemma plus_finD:
  fixes a b :: num
  assumes "a + b = Fin r"
  shows "\<exists>p q. a = Fin p \<and> b = Fin q \<and> r = p + q"
  using assms by (cases a; cases b) auto

lemma equil_sum:
  fixes r u v :: real
  shows "4 / 9 * r * (1 - 3 / 2 * (u * u + v * v)) +
         1 / 9 * r * (1 + 3 * v + 9 / 2 * (v * v) - 3 / 2 * (u * u + v * v)) +
         1 / 9 * r * (1 - 3 * v + 9 / 2 * (v * v) - 3 / 2 * (u * u + v * v)) +
         1 / 9 * r * (1 + 3 * u + 9 / 2 * (u * u) - 3 / 2 * (u * u + v * v)) +
         1 / 9 * r * (1 - 3 * u + 9 / 2 * (u * u) - 3 / 2 * (u * u + v * v)) +
         1 / 36 * r * (1 - 3 * u + 3 * v + 9 / 2 * (u * u + v * v - 2 * u * v) - 3 / 2 * (u * u + v * v)) +
         1 / 36 * r * (1 + 3 * u + 3 * v + 9 / 2 * (u * u + v * v + 2 * u * v) - 3 / 2 * (u * u + v * v)) +
         1 / 36 * r * (1 - 3 * u - 3 * v + 9 / 2 * (u * u + v * v + 2 * u * v) - 3 / 2 * (u * u + v * v)) +
         1 / 36 * r * (1 + 3 * u - 3 * v + 9 / 2 * (u * u + v * v - 2 * u * v) - 3 / 2 * (u * u + v * v)) = r"
  by (simp add: algebra_simps)

lemma relax_sum:
  fixes a0 aN aS aE aW aNW aNE aSW aSE r om :: real
  assumes "a0 + aN + aS + aE + aW + aNW + aNE + aSW + aSE = r"
    and "e0 + eN + eS + eE + eW + eNW + eNE + eSW + eSE = r"
  shows "a0 + om * (e0 - a0) + (aN + om * (eN - aN)) + (aS + om * (eS - aS)) +
         (aE + om * (eE - aE)) + (aW + om * (eW - aW)) + (aNW + om * (eNW - aNW)) +
         (aNE + om * (eNE - aNE)) + (aSW + om * (eSW - aSW)) + (aSE + om * (eSE - aSE)) = r"
proof -
  have "a0 + om * (e0 - a0) + (aN + om * (eN - aN)) + (aS + om * (eS - aS)) +
         (aE + om * (eE - aE)) + (aW + om * (eW - aW)) + (aNW + om * (eNW - aNW)) +
         (aNE + om * (eNE - aNE)) + (aSW + om * (eSW - aSW)) + (aSE + om * (eSE - aSE)) =
        (a0 + aN + aS + aE + aW + aNW + aNE + aSW + aSE) +
        om * ((e0 + eN + eS + eE + eW + eNW + eNE + eSW + eSE) -
              (a0 + aN + aS + aE + aW + aNW + aNE + aSW + aSE))"
    by (simp add: algebra_simps)
  then show ?thesis
    by (simp only: assms) simp
qed

lemma popsum_finD:
  assumes "popsum s i = Fin r"
  shows "\<exists>a0 aN aS aE aW aNW aNE aSW aSE.
           rd (n0 s) i = Fin a0 \<and> rd (nN s) i = Fin aN \<and> rd (nS s) i = Fin aS \<and>
           rd (nE s) i = Fin aE \<and> rd (nW s) i = Fin aW \<and> rd (nNW s) i = Fin aNW \<and>
           rd (nNE s) i = Fin aNE \<and> rd (nSW s) i = Fin aSW \<and> rd (nSE s) i = Fin aSE \<and>
           a0 + aN + aS + aE + aW + aNW + aNE + aSW + aSE = r"
proof -
  from assms obtain p8 aSE where 8: "rd (nSE s) i = Fin aSE" "r = p8 + aSE"
    and s8: "rd (n0 s) i + rd (nN s) i + rd (nS s) i + rd (nE s) i + rd (nW s) i +
             rd (nNW s) i + rd (nNE s) i + rd (nSW s) i = Fin p8"
    unfolding popsum_def by (blast dest: plus_finD)
  from s8 obtain p7 aSW where 7: "rd (nSW s) i = Fin aSW" "p8 = p7 + aSW"
    and s7: "rd (n0 s) i + rd (nN s) i + rd (nS s) i + rd (nE s) i + rd (nW s) i +
             rd (nNW s) i + rd (nNE s) i = Fin p7"
    by (blast dest: plus_finD)
  from s7 obtain p6 aNE where 6: "rd (nNE s) i = Fin aNE" "p7 = p6 + aNE"
    and s6: "rd (n0 s) i + rd (nN s) i + rd (nS s) i + rd (nE s) i + rd (nW s) i +
             rd (nNW s) i = Fin p6"
    by (blast dest: plus_finD)
  from s6 obtain p5 aNW where 5: "rd (nNW s) i = Fin aNW" "p6 = p5 + aNW"
    and s5: "rd (n0 s) i + rd (nN s) i + rd (nS s) i + rd (nE s) i + rd (nW s) i = Fin p5"
    by (blast dest: plus_finD)
  from s5 obtain p4 aW where 4: "rd (nW s) i = Fin aW" "p5 = p4 + aW"
    and s4: "rd (n0 s) i + rd (nN s) i + rd (nS s) i + rd (nE s) i = Fin p4"
    by (blast dest: plus_finD)
  from s4 obtain p3 aE where 3: "rd (nE s) i = Fin aE" "p4 = p3 + aE"
    and s3: "rd (n0 s) i + rd (nN s) i + rd (nS s) i = Fin p3"
    by (blast dest: plus_finD)
  from s3 obtain p2 aS where 2: "rd (nS s) i = Fin aS" "p3 = p2 + aS"
    and s2: "rd (n0 s) i + rd (nN s) i = Fin p2"
    by (blast dest: plus_finD)
  from s2 obtain a0 aN where 1: "rd (n0 s) i = Fin a0" "rd (nN s) i = Fin aN" "p2 = a0 + aN"
    by (blast dest: plus_finD)
  have "a0 + aN + aS + aE + aW + aNW + aNE + aSW + aSE = r"
    using 1 2 3 4 5 6 7 8 by simp
  then show ?thesis
    using 1 2 3 4 5 6 7 8 by blast
qed

lemma collide_cell_mass:
  assumes "dims w h s" "0 \<le> x + y * w" "x + y * w < w * h"
    and "popsum s (x + y * w) = Fin r" "r \<noteq> 0"
  shows "popsum (collide_cell (Fin om) y x s) (x + y * w) = Fin r"
proof -
  define i where "i = x + y * w"
  define t where "t = collide_cell (Fin om) y x s"
  obtain a0 aN aS aE aW aNW aNE aSW aSE where
    a: "rd (n0 s) i = Fin a0" "rd (nN s) i = Fin aN" "rd (nS s) i = Fin aS"
      "rd (nE s) i = Fin aE" "rd (nW s) i = Fin aW" "rd (nNW s) i = Fin aNW"
      "rd (nNE s) i = Fin aNE" "rd (nSW s) i = Fin aSW" "rd (nSE s) i = Fin aSE"
    and sum: "a0 + aN + aS + aE + aW + aNW + aNE + aSW + aSE = r"
    using popsum_finD [OF assms(4)] unfolding i_def by blast
  define u where "u = (aE + aNE + aSE - aW - aNW - aSW) / r"
  define v where "v = (aN + aNE + aNW - aS - aSE - aSW) / r"
  define e0 where "e0 = 4 / 9 * r * (1 - 3 / 2 * (u * u + v * v))"
  define eN where "eN = 1 / 9 * r * (1 + 3 * v + 9 / 2 * (v * v) - 3 / 2 * (u * u + v * v))"
  define eS where "eS = 1 / 9 * r * (1 - 3 * v + 9 / 2 * (v * v) - 3 / 2 * (u * u + v * v))"
  define eE where "eE = 1 / 9 * r * (1 + 3 * u + 9 / 2 * (u * u) - 3 / 2 * (u * u + v * v))"
  define eW where "eW = 1 / 9 * r * (1 - 3 * u + 9 / 2 * (u * u) - 3 / 2 * (u * u + v * v))"
  define eNW where "eNW = 1 / 36 * r * (1 - 3 * u + 3 * v + 9 / 2 * (u * u + v * v - 2 * u * v) - 3 / 2 * (u * u + v * v))"
  define eNE where "eNE = 1 / 36 * r * (1 + 3 * u + 3 * v + 9 / 2 * (u * u + v * v + 2 * u * v) - 3 / 2 * (u * u + v * v))"
  define eSW where "eSW = 1 / 36 * r * (1 - 3 * u - 3 * v + 9 / 2 * (u * u + v * v + 2 * u * v) - 3 / 2 * (u * u + v * v))"
  define eSE where "eSE = 1 / 36 * r * (1 + 3 * u - 3 * v + 9 / 2 * (u * u + v * v - 2 * u * v) - 3 / 2 * (u * u + v * v))"
  have esum: "e0 + eN + eS + eE + eW + eNW + eNE + eSW + eSE = r"
    unfolding e0_def eN_def eS_def eE_def eW_def eNW_def eNE_def eSW_def eSE_def
    by (rule equil_sum)
  have w: "xdim s = w"
    using assms(1) by (simp add: dims_def)
  have rng: "0 \<le> i" "i < w * h"
    using assms(2,3) by (simp_all add: i_def)
  note len = dims_lengths [OF assms(1)]
  have m: "popsum s i = Fin r" "xmoment s i / Fin r = Fin u" "ymoment s i / Fin r = Fin v"
    using assms(4,5) by (simp_all add: i_def [symmetric] xmoment_def ymoment_def a u_def v_def)
  have n: "rd (n0 t) i = Fin (a0 + om * (e0 - a0))"
    "rd (nN t) i = Fin (aN + om * (eN - aN))"
    "rd (nS t) i = Fin (aS + om * (eS - aS))"
    "rd (nE t) i = Fin (aE + om * (eE - aE))"
    "rd (nW t) i = Fin (aW + om * (eW - aW))"
    "rd (nNW t) i = Fin (aNW + om * (eNW - aNW))"
    "rd (nNE t) i = Fin (aNE + om * (eNE - aNE))"
    "rd (nSW t) i = Fin (aSW + om * (eSW - aSW))"
    "rd (nSE t) i = Fin (aSE + om * (eSE - aSE))"
    using rng len
    by (simp_all add: t_def collide_cell_def Let_def w i_def [symmetric] rd_wr_same m a consts_fin
        e0_def eN_def eS_def eE_def eW_def eNW_def eNE_def eSW_def eSE_def)
  have "popsum t i = Fin r"
    unfolding popsum_def n using relax_sum [OF sum esum, of om] by simp
  then show ?thesis
    by (simp add: t_def i_def)
qed

lemma popsum_pops: "pops s i = pops t j \<Longrightarrow> popsum s i = popsum t j"
  by (simp add: pops_def popsum_def)

text \<open>
  C2 (amended). On a constructed lattice, for an interior cell whose nine populations
  are finite and do not sum to zero, and every real \<open>omega\<close>, \<open>collide(omega)\<close> leaves
  the sum of the nine populations of the cell unchanged.
\<close>

theorem collide_conserves_mass:
  assumes "wf s" and "1 \<le> x" "x \<le> xdim s - 2" and "1 \<le> y" "y \<le> ydim s - 2"
    and "popsum s (x + y * xdim s) = Fin r" and "r \<noteq> 0"
  shows "popsum (collide (Fin om) s) (x + y * xdim s) = Fin r"
proof -
  have d: "dims (xdim s) (ydim s) s"
    using assms(1) by (simp add: dims_def)
  have rng: "0 \<le> x + y * xdim s" "x + y * xdim s < xdim s * ydim s"
    using idx_in_range [of x "xdim s" y "ydim s"] assms(2-5) by simp_all
  have "popsum (collide (Fin om) s) (x + y * xdim s) =
        popsum (collide_cell (Fin om) y x s) (x + y * xdim s)"
    by (rule popsum_pops) (rule collide_at [OF d assms(2-5)])
  also have "\<dots> = Fin r"
    using d rng assms(6,7) by (rule collide_cell_mass)
  finally show ?thesis .
qed

theorem collide_conserves_mass_witness:
  "wf ((new_lbm 3 3 1)\<lparr>n0 := replicate 9 (Fin 1)\<rparr>) \<and>
   popsum ((new_lbm 3 3 1)\<lparr>n0 := replicate 9 (Fin 1)\<rparr>) 4 = Fin 1 \<and>
   popsum (collide (Fin 1.5) ((new_lbm 3 3 1)\<lparr>n0 := replicate 9 (Fin 1)\<rparr>)) 4 = Fin 1"
proof -
  define s where "s = (new_lbm 3 3 1)\<lparr>n0 := replicate 9 (Fin 1)\<rparr>"
  have w: "wf s"
    by (simp add: s_def wf_def new_lbm_def Let_def)
  have x: "xdim s = 3" "ydim s = 3"
    by (simp_all add: s_def)
  have p: "popsum s (1 + 1 * xdim s) = Fin 1"
    by (simp add: s_def popsum_def new_lbm_def Let_def rd_def)
  have "popsum (collide (Fin 1.5) s) (1 + 1 * xdim s) = Fin 1"
    by (rule collide_conserves_mass [OF w _ _ _ _ p]) (simp_all add: x)
  then show ?thesis
    using w p by (simp add: s_def [symmetric] x)
qed

text \<open>
  At a cell of density zero the division by \<open>rho\<close> is a division by zero, the velocity
  is not a number and neither is any population after the collision: on the freshly
  constructed (zero-filled) 3 by 3 lattice the populations of the interior cell sum to
  0 before \<open>collide(1)\<close> and to a non-finite value after it.
\<close>

theorem collide_zero_density_counterexample:
  "popsum (new_lbm 3 3 1) (1 + 1 * 3) = Fin 0 \<and>
   popsum (collide (Fin 1) (new_lbm 3 3 1)) (1 + 1 * 3) = NonFin"
proof -
  have d: "dims 3 3 (new_lbm 3 3 1)"
    by (simp add: dims_def wf_new)
  have "pops (collide (Fin 1) (new_lbm 3 3 1)) (1 + 1 * 3) =
        pops (collide_cell (Fin 1) 1 1 (new_lbm 3 3 1)) (1 + 1 * 3)"
    by (rule collide_at [OF d]) simp_all
  then have "popsum (collide (Fin 1) (new_lbm 3 3 1)) (1 + 1 * 3) =
        popsum (collide_cell (Fin 1) 1 1 (new_lbm 3 3 1)) (1 + 1 * 3)"
    by (rule popsum_pops)
  also have "\<dots> = NonFin"
    by (simp add: collide_cell_def Let_def popsum_def xmoment_def ymoment_def new_lbm_def
        rd_def wr_def)
  finally show ?thesis
    by (simp add: popsum_def new_lbm_def Let_def rd_def)
qed

section \<open>Uniform flow\<close>

lemma uniform_flowD:
  "uniform_flow u s \<Longrightarrow> 0 \<le> i \<Longrightarrow> i < xdim s * ydim s \<Longrightarrow> pops s i = equil (Fin 1) (Fin u) (Fin 0)"
  by (simp add: uniform_flow_def)

lemma uniform_flowI:
  assumes "\<And>i. 0 \<le> i \<Longrightarrow> i < xdim s * ydim s \<Longrightarrow> pops s i = equil (Fin 1) (Fin u) (Fin 0)"
  shows "uniform_flow u s"
  using assms by (simp add: uniform_flow_def)

lemma setEquil_at_idx:
  assumes "dims w h s" "0 \<le> x + y * w" "x + y * w < w * h"
  shows "pops (setEquil x y vx vy (Some r) s) (x + y * w) = equil r vx vy"
proof -
  have w: "xdim s = w"
    using assms(1) by (simp add: dims_def)
  note len = dims_lengths [OF assms(1)]
  show ?thesis
    using assms(2,3) len by (simp add: pops_def equil_def setEquil_def Let_def w rd_wr_same)
qed

lemma setEquil_uniform:
  assumes "dims w h s" "uniform_flow u s"
  shows "uniform_flow u (setEquil x y (Fin u) (Fin 0) (Some (Fin 1)) s)"
proof (rule uniform_flowI)
  fix i
  assume i: "0 \<le> i" "i < xdim (setEquil x y (Fin u) (Fin 0) (Some (Fin 1)) s) *
      ydim (setEquil x y (Fin u) (Fin 0) (Some (Fin 1)) s)"
  have wh: "xdim s = w" "ydim s = h"
    using assms(1) by (simp_all add: dims_def)
  have i': "i < w * h" "i < xdim s * ydim s"
    using i(2) dims_setEquil [OF assms(1), of x y "Fin u" "Fin 0" "Some (Fin 1)"] wh
    by (simp_all add: dims_def)
  show "pops (setEquil x y (Fin u) (Fin 0) (Some (Fin 1)) s) i = equil (Fin 1) (Fin u) (Fin 0)"
  proof (cases "i = x + y * w")
    case True
    then show ?thesis
      using setEquil_at_idx [OF assms(1), of x y "Fin u" "Fin 0" "Fin 1"] i(1) i'(1) by simp
  next
    case False
    then show ?thesis
      using uniform_flowD [OF assms(2) i(1) i'(2)] by (simp add: setEquil_other wh)
  qed
qed

lemma steady_setEquil:
  assumes "steady w h u b s"
  shows "steady w h u b (setEquil x y (Fin u) (Fin 0) (Some (Fin 1)) s)"
proof -
  have d: "dims w h s" and f: "uniform_flow u s" and b: "barrier s = b"
    using assms by (simp_all add: steady_def)
  have "barrier (setEquil x y (Fin u) (Fin 0) (Some (Fin 1)) s) = b"
    using b by (simp add: setEquil_def Let_def)
  then show ?thesis
    unfolding steady_def using dims_setEquil [OF d] setEquil_uniform [OF d f] by simp
qed

lemma steady_setBoundaries:
  assumes "steady w h u b s"
  shows "steady w h u b (setBoundaries (Fin u) s)"
  unfolding setBoundaries_def Let_def
  by (intro for_lt_inv [where P = "steady w h u b"] steady_setEquil assms)

lemma collide_cell_equil:
  assumes "dims w h s" "0 \<le> x + y * w" "x + y * w < w * h"
    and "pops s (x + y * w) = equil (Fin 1) (Fin u) (Fin 0)"
  shows "pops (collide_cell (Fin om) y x s) (x + y * w) = equil (Fin 1) (Fin u) (Fin 0)"
    and "macro (collide_cell (Fin om) y x s) (x + y * w) = [Fin 1, Fin u, Fin 0]"
proof -
  define i where "i = x + y * w"
  have a: "rd (n0 s) i = Fin (4 / 9 * (1 - 3 / 2 * (u * u)))"
    "rd (nE s) i = Fin (1 / 9 * (1 + 3 * u + 9 / 2 * (u * u) - 3 / 2 * (u * u)))"
    "rd (nW s) i = Fin (1 / 9 * (1 - 3 * u + 9 / 2 * (u * u) - 3 / 2 * (u * u)))"
    "rd (nN s) i = Fin (1 / 9 * (1 - 3 / 2 * (u * u)))"
    "rd (nS s) i = Fin (1 / 9 * (1 - 3 / 2 * (u * u)))"
    "rd (nNE s) i = Fin (1 / 36 * (1 + 3 * u + 9 / 2 * (u * u) - 3 / 2 * (u * u)))"
    "rd (nSE s) i = Fin (1 / 36 * (1 + 3 * u + 9 / 2 * (u * u) - 3 / 2 * (u * u)))"
    "rd (nNW s) i = Fin (1 / 36 * (1 - 3 * u + 9 / 2 * (u * u) - 3 / 2 * (u * u)))"
    "rd (nSW s) i = Fin (1 / 36 * (1 - 3 * u + 9 / 2 * (u * u) - 3 / 2 * (u * u)))"
    using assms(4) by (simp_all add: pops_def equil_def Let_def consts_fin i_def)
  have m: "popsum s i = Fin 1" "xmoment s i = Fin u" "ymoment s i = Fin 0"
    by (simp_all add: popsum_def xmoment_def ymoment_def a algebra_simps)
  have w: "xdim s = w"
    using assms(1) by (simp add: dims_def)
  have rng: "0 \<le> i" "i < w * h"
    using assms(2,3) by (simp_all add: i_def)
  note len = dims_lengths [OF assms(1)]
  have "pops (collide_cell (Fin om) y x s) i = equil (Fin 1) (Fin u) (Fin 0)"
    using rng len
    by (simp add: pops_def equil_def collide_cell_def Let_def w i_def [symmetric] rd_wr_same m a
        consts_fin)
  moreover have "macro (collide_cell (Fin om) y x s) i = [Fin 1, Fin u, Fin 0]"
    using rng len
    by (simp add: macro_def collide_cell_def Let_def w i_def [symmetric] rd_wr_same m)
  ultimately show "pops (collide_cell (Fin om) y x s) (x + y * w) = equil (Fin 1) (Fin u) (Fin 0)"
    and "macro (collide_cell (Fin om) y x s) (x + y * w) = [Fin 1, Fin u, Fin 0]"
    by (simp_all add: i_def)
qed

lemma steady_collide_cell:
  assumes "steady w h u b s"
  shows "steady w h u b (collide_cell (Fin om) y x s)"
proof -
  have d: "dims w h s" and f: "uniform_flow u s" and b: "barrier s = b"
    using assms by (simp_all add: steady_def)
  have wh: "xdim s = w" "ydim s = h"
    using d by (simp_all add: dims_def)
  have d': "dims w h (collide_cell (Fin om) y x s)"
    using d by (rule dims_collide_cell)
  have "uniform_flow u (collide_cell (Fin om) y x s)"
  proof (rule uniform_flowI)
    fix i
    assume "0 \<le> i" "i < xdim (collide_cell (Fin om) y x s) * ydim (collide_cell (Fin om) y x s)"
    then have i: "0 \<le> i" "i < w * h"
      using d' by (simp_all add: dims_def)
    then have p: "pops s i = equil (Fin 1) (Fin u) (Fin 0)"
      using uniform_flowD [OF f, of i] by (simp add: wh)
    show "pops (collide_cell (Fin om) y x s) i = equil (Fin 1) (Fin u) (Fin 0)"
    proof (cases "i = x + y * w")
      case True
      then show ?thesis
        using collide_cell_equil(1) [OF d, of x y u om] i p by simp
    next
      case False
      then show ?thesis
        using p by (simp add: collide_cell_other wh)
    qed
  qed
  moreover have "barrier (collide_cell (Fin om) y x s) = b"
    using b by (simp add: collide_cell_def Let_def)
  ultimately show ?thesis
    using d' by (simp add: steady_def)
qed

lemma steady_collide_east:
  assumes "steady w h u b s" "1 \<le> y"
  shows "steady w h u b (collide_east y s)"
proof -
  have d: "dims w h s" and f: "uniform_flow u s" and b: "barrier s = b"
    using assms by (simp_all add: steady_def)
  have wh: "xdim s = w" "ydim s = h"
    using d by (simp_all add: dims_def)
  have d': "dims w h (collide_east y s)"
    using d by (rule dims_collide_east)
  note len = dims_lengths [OF d]
  have "uniform_flow u (collide_east y s)"
  proof (rule uniform_flowI)
    fix i
    assume "0 \<le> i" "i < xdim (collide_east y s) * ydim (collide_east y s)"
    then have i: "0 \<le> i" "i < w * h"
      using d' by (simp_all add: dims_def)
    then have p: "pops s i = equil (Fin 1) (Fin u) (Fin 0)"
      using uniform_flowD [OF f, of i] by (simp add: wh)
    show "pops (collide_east y s) i = equil (Fin 1) (Fin u) (Fin 0)"
    proof (cases "i = w - 1 + y * w")
      case False
      then show ?thesis
        using p by (simp add: collide_east_other wh)
    next
      case True
      have "0 \<le> h"
        using d by (simp add: dims_def wf_def)
      have "0 < w"
      proof (rule ccontr)
        assume "\<not> 0 < w"
        then have "w * h \<le> 0"
          using \<open>0 \<le> h\<close> by (simp add: mult_nonpos_nonneg)
        then show False
          using i by simp
      qed
      have "1 * w \<le> y * w"
        using assms(2) \<open>0 < w\<close> by (intro mult_right_mono) simp_all
      then have "1 \<le> i"
        using True \<open>0 < w\<close> by linarith
      then have "0 \<le> i - 1" "i - 1 < w * h"
        using i by linarith+
      then have q: "pops s (i - 1) = equil (Fin 1) (Fin u) (Fin 0)"
        using uniform_flowD [OF f, of "i - 1"] by (simp add: wh)
      show ?thesis
        using p q i len True
        by (simp add: pops_def equil_def collide_east_def Let_def wh rd_wr_same)
    qed
  qed
  moreover have "barrier (collide_east y s) = b"
    using b by (simp add: collide_east_def Let_def)
  ultimately show ?thesis
    using d' by (simp add: steady_def)
qed

lemma steady_collide:
  assumes "steady w h u b s"
  shows "steady w h u b (collide (Fin om) s)"
proof -
  have d: "dims w h s"
    using assms by (simp add: steady_def)
  have "steady w h u b (collide_interior (Fin om) s)"
    unfolding collide_as_folds(1) [OF d]
    using assms by (intro fold_inv [where P = "steady w h u b"] steady_collide_cell)
  then show ?thesis
    unfolding collide_as_folds(2) [OF d]
    by (intro fold_inv_mem [where P = "steady w h u b"] steady_collide_east) simp_all
qed

lemma cell_of_index:
  fixes w h i :: int
  assumes "0 \<le> i" "i < w * h" "0 \<le> h"
  shows "i = idx w (i div w, i mod w)" "0 \<le> i mod w" "i mod w < w" "0 \<le> i div w" "i div w < h"
proof -
  have w: "0 < w"
  proof (rule ccontr)
    assume "\<not> 0 < w"
    then have "w * h \<le> 0"
      using assms(3) by (simp add: mult_nonpos_nonneg)
    then show False
      using assms(1,2) by simp
  qed
  show "i = idx w (i div w, i mod w)"
    by (simp add: idx_def)
  show m: "0 \<le> i mod w" "i mod w < w"
    using w by simp_all
  have e: "w * (i div w) + i mod w = i"
    by (rule mult_div_mod_eq)
  show "0 \<le> i div w"
    using w assms(1) by (simp add: pos_imp_zdiv_nonneg_iff)
  show "i div w < h"
  proof (rule ccontr)
    assume "\<not> i div w < h"
    then have "w * h \<le> w * (i div w)"
      using w by simp
    then show False
      using e m assms(2) by linarith
  qed
qed

lemma stream_bodies_other:
  assumes "i \<noteq> x + y * xd"
  shows "pops (stream_N xd y x s) i = pops s i" "pops (stream_E xd y x s) i = pops s i"
    "pops (stream_S xd y x s) i = pops s i" "pops (stream_W xd y x s) i = pops s i"
  using assms
  by (simp_all add: pops_def stream_N_def stream_E_def stream_S_def stream_W_def rd_wr_other)

lemma sweeps_other:
  assumes "i \<notin> idx (xdim s) ` set (grid [1..ydim s - 2] [1..xdim s - 2])"
  shows "pops (stream_sweeps s) i = pops s i"
proof -
  have ne: "i \<noteq> snd c + fst c * xdim s"
    if "c \<in> set (grid ys xs)" "set ys \<subseteq> {1..ydim s - 2}" "set xs \<subseteq> {1..xdim s - 2}" for c ys xs
  proof
    assume "i = snd c + fst c * xdim s"
    moreover have "c \<in> set (grid [1..ydim s - 2] [1..xdim s - 2])"
      using that by (auto simp: set_grid)
    ultimately show False
      using assms by (auto simp: idx_def)
  qed
  let ?P = "\<lambda>t. pops t i = pops s i"
  show ?thesis
    unfolding sweeps_as_folds
    by (intro fold_inv_mem [where P = ?P]) (simp_all add: stream_bodies_other ne)
qed

lemma bounce_free:
  assumes "barrier_free s"
  shows "stream_bounce s = s"
proof -
  have "\<not> flag (barrier s) i" for i
    using assms by (auto simp: flag_def barrier_free_def)
  then have "filter (\<lambda>c. flag (barrier s) (idx (xdim s) c)) (grid [1..ydim s - 2] [1..xdim s - 2]) = []"
    by simp
  then show ?thesis
    unfolding bounce_as_fold by (subst fold_bounce_filter) simp
qed

lemma equil_list:
  "\<exists>e0 eE eW eN eS eNE eSE eNW eSW. equil r vx vy = [e0, eE, eW, eN, eS, eNE, eSE, eNW, eSW]"
  by (simp add: equil_def Let_def)

lemma steady_stream:
  assumes "steady w h u b s" "\<forall>x\<in>set b. x = 0"
  shows "steady w h u b (stream s)" and "macro (stream s) i = macro s i"
proof -
  define p where "p = stream_sweeps (stream_reset s)"
  have d: "dims w h s" and f: "uniform_flow u s" and b: "barrier s = b"
    using assms(1) by (simp_all add: steady_def)
  have wh: "xdim s = w" "ydim s = h" and wf: "wf s"
    using d by (simp_all add: dims_def)
  have out: "outside_stream s p"
    unfolding p_def by (rule pre_bounce_outside)
  have "barrier_free p"
    using assms(2) b by (simp add: barrier_free_def p_def)
  then have st: "stream s = p"
    by (simp add: stream_def p_def [symmetric] bounce_free)
  have dp: "dims w h p"
    using pre_bounce_dims [OF wf] by (simp add: p_def wh)
  obtain e0 eE eW eN eS eNE eSE eNW eSW
    where e: "equil (Fin 1) (Fin u) (Fin 0) = [e0, eE, eW, eN, eS, eNE, eSE, eNW, eSW]"
    using equil_list [of "Fin 1" "Fin u" "Fin 0"] by (elim exE)
  have at: "rd (n0 s) j = e0 \<and> rd (nE s) j = eE \<and> rd (nW s) j = eW \<and> rd (nN s) j = eN \<and>
      rd (nS s) j = eS \<and> rd (nNE s) j = eNE \<and> rd (nSE s) j = eSE \<and> rd (nNW s) j = eNW \<and>
      rd (nSW s) j = eSW" if "0 \<le> j" "j < w * h" for j
    using uniform_flowD [OF f, of j] that by (simp add: wh e pops_def)
  have "uniform_flow u p"
  proof (rule uniform_flowI)
    fix i
    assume "0 \<le> i" "i < xdim p * ydim p"
    then have i: "0 \<le> i" "i < w * h"
      using dp by (simp_all add: dims_def)
    have "0 \<le> h"
      using wf wh by (simp add: wf_def)
    note c = cell_of_index [OF i this]
    define x y where "x = i mod w" and "y = i div w"
    have ixy: "i = x + y * w" and xy: "0 \<le> x" "x < w" "0 \<le> y" "y < h"
      using c by (simp_all add: x_def y_def idx_def)
    show "pops p i = equil (Fin 1) (Fin u) (Fin 0)"
    proof (cases "1 \<le> x \<and> x \<le> w - 2 \<and> 1 \<le> y \<and> y \<le> h - 2")
      case True
      have up: "0 \<le> x + dx + (y + dy) * w \<and> x + dx + (y + dy) * w < w * h"
        if "- 1 \<le> dx" "dx \<le> 1" "- 1 \<le> dy" "dy \<le> 1" for dx dy
        using idx_in_range [of "x + dx" w "y + dy" h] True that by simp
      have n0: "rd (n0 p) i = rd (n0 s) i"
        using out by (simp add: outside_stream_def)
      have sh: "rd (nN p) i = rd (nN s) (x + 0 + (y + (- 1)) * w)"
        "rd (nNW p) i = rd (nNW s) (x + 1 + (y + (- 1)) * w)"
        "rd (nE p) i = rd (nE s) (x + (- 1) + (y + 0) * w)"
        "rd (nNE p) i = rd (nNE s) (x + (- 1) + (y + (- 1)) * w)"
        "rd (nS p) i = rd (nS s) (x + 0 + (y + 1) * w)"
        "rd (nSE p) i = rd (nSE s) (x + (- 1) + (y + 1) * w)"
        "rd (nW p) i = rd (nW s) (x + 1 + (y + 0) * w)"
        "rd (nSW p) i = rd (nSW s) (x + 1 + (y + 1) * w)"
        using sweeps_shift [OF wf, of x y] True by (simp_all add: wh p_def ixy)
      show ?thesis
        unfolding pops_def e n0 sh
        using at [OF i] at [OF up [of 0 "- 1", THEN conjunct1] up [of 0 "- 1", THEN conjunct2]]
          at [OF up [of 1 "- 1", THEN conjunct1] up [of 1 "- 1", THEN conjunct2]]
          at [OF up [of "- 1" 0, THEN conjunct1] up [of "- 1" 0, THEN conjunct2]]
          at [OF up [of "- 1" "- 1", THEN conjunct1] up [of "- 1" "- 1", THEN conjunct2]]
          at [OF up [of 0 1, THEN conjunct1] up [of 0 1, THEN conjunct2]]
          at [OF up [of "- 1" 1, THEN conjunct1] up [of "- 1" 1, THEN conjunct2]]
          at [OF up [of 1 0, THEN conjunct1] up [of 1 0, THEN conjunct2]]
          at [OF up [of 1 1, THEN conjunct1] up [of 1 1, THEN conjunct2]]
        by simp
    next
      case False
      have "i \<notin> idx w ` set (grid [1..h - 2] [1..w - 2])"
      proof
        assume "i \<in> idx w ` set (grid [1..h - 2] [1..w - 2])"
        then obtain c' where c': "c' \<in> set (grid [1..h - 2] [1..w - 2])" "idx w (y, x) = idx w c'"
          using ixy by (auto simp: idx_def)
        then have "(y, x) = c'"
          using xy by (intro idx_inj [of _ w]) (auto simp: set_grid)
        then show False
          using c'(1) False by (auto simp: set_grid)
      qed
      then have "pops (stream_sweeps (stream_reset s)) i = pops (stream_reset s) i"
        by (intro sweeps_other) (simp add: stream_reset_def wh)
      also have "\<dots> = pops s i"
        by (simp add: pops_def stream_reset_def)
      finally show ?thesis
        using uniform_flowD [OF f, of i] i by (simp add: p_def wh)
    qed
  qed
  moreover have "barrier p = b"
    using b by (simp add: p_def)
  ultimately show "steady w h u b (stream s)"
    using dp by (simp add: steady_def st)
  show "macro (stream s) i = macro s i"
    using out by (simp add: st macro_def outside_stream_def)
qed

lemma equil_moments:
  assumes "pops s i = equil (Fin r) (Fin vx) (Fin vy)"
  shows "popsum s i = Fin r" "xmoment s i = Fin (r * vx)" "ymoment s i = Fin (r * vy)"
proof -
  have a: "rd (n0 s) i = equil (Fin r) (Fin vx) (Fin vy) ! 0"
    "rd (nE s) i = equil (Fin r) (Fin vx) (Fin vy) ! 1"
    "rd (nW s) i = equil (Fin r) (Fin vx) (Fin vy) ! 2"
    "rd (nN s) i = equil (Fin r) (Fin vx) (Fin vy) ! 3"
    "rd (nS s) i = equil (Fin r) (Fin vx) (Fin vy) ! 4"
    "rd (nNE s) i = equil (Fin r) (Fin vx) (Fin vy) ! 5"
    "rd (nSE s) i = equil (Fin r) (Fin vx) (Fin vy) ! 6"
    "rd (nNW s) i = equil (Fin r) (Fin vx) (Fin vy) ! 7"
    "rd (nSW s) i = equil (Fin r) (Fin vx) (Fin vy) ! 8"
    unfolding assms [symmetric] by (simp_all add: pops_def)
  show "popsum s i = Fin r"
    unfolding popsum_def a by (simp add: equil_def Let_def consts_fin algebra_simps)
  show "xmoment s i = Fin (r * vx)"
    unfolding xmoment_def a by (simp add: equil_def Let_def consts_fin algebra_simps)
  show "ymoment s i = Fin (r * vy)"
    unfolding ymoment_def a by (simp add: equil_def Let_def consts_fin algebra_simps)
qed

text \<open>
  C4. On a constructed, barrier-free lattice in which every cell holds the equilibrium
  populations for density 1 and velocity \<open>(u0, 0)\<close> (what \<open>initFluid(u0)\<close> produces),
  one step \<open>setBoundaries(u0); collide(omega); stream()\<close> leaves \<open>rho\<close>, \<open>ux\<close>, \<open>uy\<close>
  at every interior cell equal to \<open>(1, u0, 0)\<close>, for every real \<open>omega\<close>: the stored
  entries are \<open>(1, u0, 0)\<close>, the populations are the equilibrium ones again, with
  sum 1 and first moments \<open>(u0, 0)\<close>, and the whole lattice is in uniform flow again.
\<close>

theorem uniform_flow_fixed_point:
  assumes "wf s" and "barrier_free s" and "uniform_flow u0 s"
    and "1 \<le> x" "x \<le> xdim s - 2" and "1 \<le> y" "y \<le> ydim s - 2"
  shows "macro (stream (collide (Fin om) (setBoundaries (Fin u0) s))) (x + y * xdim s)
           = [Fin 1, Fin u0, Fin 0] \<and>
         pops (stream (collide (Fin om) (setBoundaries (Fin u0) s))) (x + y * xdim s)
           = equil (Fin 1) (Fin u0) (Fin 0) \<and>
         popsum (stream (collide (Fin om) (setBoundaries (Fin u0) s))) (x + y * xdim s) = Fin 1 \<and>
         xmoment (stream (collide (Fin om) (setBoundaries (Fin u0) s))) (x + y * xdim s) = Fin u0 \<and>
         ymoment (stream (collide (Fin om) (setBoundaries (Fin u0) s))) (x + y * xdim s) = Fin 0 \<and>
         uniform_flow u0 (stream (collide (Fin om) (setBoundaries (Fin u0) s)))"
proof -
  define w h b where "w = xdim s" and "h = ydim s" and "b = barrier s"
  define s1 where "s1 = setBoundaries (Fin u0) s"
  define s2 where "s2 = collide (Fin om) s1"
  define s3 where "s3 = stream s2"
  define i where "i = x + y * w"
  have b0: "\<forall>x\<in>set b. x = 0"
    using assms(2) by (simp add: barrier_free_def b_def)
  have "steady w h u0 b s"
    using assms(1,3) by (simp add: steady_def dims_def w_def h_def b_def)
  then have 1: "steady w h u0 b s1"
    unfolding s1_def by (rule steady_setBoundaries)
  then have 2: "steady w h u0 b s2"
    unfolding s2_def by (rule steady_collide)
  then have 3: "steady w h u0 b s3"
    unfolding s3_def using b0 by (rule steady_stream(1))
  have xy: "1 \<le> x" "x \<le> w - 2" "1 \<le> y" "y \<le> h - 2"
    using assms(4-7) by (simp_all add: w_def h_def)
  have rng: "0 \<le> i" "i < w * h"
    using idx_in_range [of x w y h] xy by (simp_all add: i_def)
  have d1: "dims w h s1" and f1: "uniform_flow u0 s1"
    using 1 by (simp_all add: steady_def)
  have p1: "pops s1 i = equil (Fin 1) (Fin u0) (Fin 0)"
    using uniform_flowD [OF f1, of i] rng d1 by (simp add: dims_def)
  have "macro s2 i = macro (collide_cell (Fin om) y x s1) i"
    unfolding s2_def i_def using d1 xy by (rule collide_at(2))
  also have "\<dots> = [Fin 1, Fin u0, Fin 0]"
    unfolding i_def using d1 rng p1 unfolding i_def by (rule collide_cell_equil(2))
  finally have m2: "macro s2 i = [Fin 1, Fin u0, Fin 0]" .
  have m3: "macro s3 i = [Fin 1, Fin u0, Fin 0]"
    unfolding s3_def using steady_stream(2) [OF 2 b0, of i] m2 by simp
  have d3: "dims w h s3" and f3: "uniform_flow u0 s3"
    using 3 by (simp_all add: steady_def)
  have p3: "pops s3 i = equil (Fin 1) (Fin u0) (Fin 0)"
    using uniform_flowD [OF f3, of i] rng d3 by (simp add: dims_def)
  show ?thesis
    using m3 p3 f3 equil_moments [OF p3]
    by (simp add: s3_def s2_def s1_def i_def w_def)
qed

lemma fold_rows:
  assumes inv: "\<And>y x t. dims w h t \<Longrightarrow> dims w h (body y x t)" and start: "dims w h t"
  shows "fold (\<lambda>y t. fold (body y) (cols (xdim t)) t) ys t = fold (\<lambda>y. fold (body y) (cols w)) ys t"
  using start
proof (induction ys arbitrary: t)
  case Nil
  show ?case by simp
next
  case (Cons y ys)
  have "xdim t = w"
    using Cons.prems by (simp add: dims_def)
  moreover have "dims w h (fold (body y) (cols w) t)"
    using Cons.prems by (intro fold_inv [where P = "dims w h"] inv)
  ultimately show ?case
    using Cons.IH by simp
qed

lemma initFluid_steady:
  assumes "wf s"
  shows "steady (xdim s) (ydim s) u (barrier s) (initFluid (Fin u) s)"
proof -
  define w h where "w = xdim s" and "h = ydim s"
  define B where "B = (\<lambda>y x t. let t1 = setEquil x y (Fin u) (Fin 0) (Some (Fin 1)) t
                               in t1\<lparr>curl := wr (curl t1) (x + y * xdim t1) (Fin 0)\<rparr>)"
  define cs where "cs = grid [0..h - 1] [0..w - 1]"
  define s1 where "s1 = fold (\<lambda>c. B (fst c) (snd c)) cs s"
  have d: "dims w h s"
    using assms by (simp add: dims_def w_def h_def)
  have Bd: "dims w h (B y x t)" if "dims w h t" for y x t
    using dims_setEquil [OF that, of x y "Fin u" "Fin 0" "Some (Fin 1)"]
    by (simp add: B_def Let_def dims_def wf_def)
  have Bp: "pops (B y x t) i = pops (setEquil x y (Fin u) (Fin 0) (Some (Fin 1)) t) i" for y x t i
    by (simp add: B_def Let_def pops_def)
  have Bb: "barrier (B y x t) = barrier t" for y x t
    by (simp add: B_def Let_def setEquil_def)
  have "for_lt 0 (ydim s) (\<lambda>y t. for_lt 0 (xdim t) (B y) t) s =
        fold (\<lambda>y t. fold (B y) ((\<lambda>n. [0..n - 1]) (xdim t)) t) [0..h - 1] s"
    by (simp add: loops_fold h_def)
  also have "\<dots> = fold (\<lambda>y. fold (B y) [0..w - 1]) [0..h - 1] s"
    using Bd d by (rule fold_rows)
  also have "\<dots> = s1"
    by (simp add: s1_def cs_def fold_grid)
  finally have init: "initFluid (Fin u) s = s1\<lparr>sensorX := xdim s1 div 2, sensorY := ydim s1 div 2\<rparr>"
    by (simp add: initFluid_def B_def)
  have d1: "dims w h s1"
    unfolding s1_def using d by (intro fold_inv [where P = "dims w h"] Bd)
  have b1: "barrier s1 = barrier s"
    unfolding s1_def by (rule fold_inv [where P = "\<lambda>t. barrier t = barrier s"]) (simp_all add: Bb)
  have rng: "0 \<le> snd c \<and> snd c < w \<and> 0 \<le> fst c \<and> fst c < h" if "c \<in> set cs" for c
    using that by (auto simp: cs_def set_grid)
  have p1: "pops s1 i = equil (Fin 1) (Fin u) (Fin 0)" if i: "0 \<le> i" "i < w * h" for i
  proof -
    have "0 \<le> h"
      using assms by (simp add: wf_def h_def)
    note c = cell_of_index [OF i this]
    have mem: "(i div w, i mod w) \<in> set cs"
      using c by (simp add: cs_def set_grid)
    have "pops (fold (\<lambda>c. B (fst c) (snd c)) cs s) (idx w (i div w, i mod w)) =
          (\<lambda>c v. equil (Fin 1) (Fin u) (Fin 0)) (i div w, i mod w) (pops s (idx w (i div w, i mod w)))"
    proof (rule fold_at_inv [where I = "dims w h" and key = "idx w"])
      show "\<And>c t. dims w h t \<Longrightarrow> dims w h (B (fst c) (snd c) t)"
        by (rule Bd)
      show "\<And>c t j. dims w h t \<Longrightarrow> c \<in> set cs \<Longrightarrow> idx w c \<noteq> j \<Longrightarrow>
          pops (B (fst c) (snd c) t) j = pops t j"
        by (simp add: Bp setEquil_other idx_def dims_def)
      show "pops (B (fst c) (snd c) t) (idx w c) = equil (Fin 1) (Fin u) (Fin 0)"
        if "dims w h t" "c \<in> set cs" for c t
        using setEquil_at(1) [OF that(1), of "snd c" "fst c" "Fin u" "Fin 0" "Some (Fin 1)"]
          rng [OF that(2)] by (simp add: Bp idx_def)
      show "distinct (map (idx w) cs)"
        unfolding distinct_map using rng by (simp add: cs_def distinct_grid inj_on_idx)
      show "dims w h s" by (rule d)
      show "(i div w, i mod w) \<in> set cs" by (rule mem)
    qed
    then show ?thesis
      using c(1) by (simp add: s1_def)
  qed
  have "uniform_flow u (initFluid (Fin u) s)"
  proof (rule uniform_flowI)
    fix i
    assume "0 \<le> i" "i < xdim (initFluid (Fin u) s) * ydim (initFluid (Fin u) s)"
    then have "0 \<le> i" "i < w * h"
      using d1 by (simp_all add: init dims_def)
    then show "pops (initFluid (Fin u) s) i = equil (Fin 1) (Fin u) (Fin 0)"
      using p1 [of i] by (simp add: init pops_def)
  qed
  moreover have "dims w h (initFluid (Fin u) s)"
    using d1 by (simp add: init dims_def wf_def)
  moreover have "barrier (initFluid (Fin u) s) = barrier s"
    using b1 by (simp add: init)
  ultimately show ?thesis
    by (simp add: steady_def w_def h_def)
qed

theorem uniform_flow_fixed_point_witness:
  "wf (initFluid (Fin 0.1) (new_lbm 4 4 1)) \<and>
   barrier_free (initFluid (Fin 0.1) (new_lbm 4 4 1)) \<and>
   uniform_flow 0.1 (initFluid (Fin 0.1) (new_lbm 4 4 1)) \<and>
   macro (stream (collide (Fin (25 / 14)) (setBoundaries (Fin 0.1) (initFluid (Fin 0.1) (new_lbm 4 4 1)))))
     (1 + 1 * 4) = [Fin 1, Fin 0.1, Fin 0]"
proof -
  define s where "s = initFluid (Fin 0.1) (new_lbm 4 4 1)"
  have "steady 4 4 0.1 (barrier (new_lbm 4 4 1)) s"
    using initFluid_steady [of "new_lbm 4 4 1" "0.1"] by (simp add: s_def wf_new)
  then have w: "wf s" and x: "xdim s = 4" "ydim s = 4" and f: "uniform_flow 0.1 s"
    and b: "barrier s = barrier (new_lbm 4 4 1)"
    by (simp_all add: steady_def dims_def)
  have bf: "barrier_free s"
    by (simp add: barrier_free_def b new_lbm_def Let_def)
  have "macro (stream (collide (Fin (25 / 14)) (setBoundaries (Fin 0.1) s))) (1 + 1 * xdim s)
        = [Fin 1, Fin 0.1, Fin 0]"
    using uniform_flow_fixed_point [OF w bf f, of 1 1 "25 / 14"] by (simp add: x)
  then show ?thesis
    using w bf f by (simp add: s_def [symmetric] x)
qed

section \<open>The outflow column\<close>

lemma setBoundaries_as_folds:
  assumes "dims w h s"
  shows "setBoundaries v s =
     fold (\<lambda>y t. setEquil (w - 1) y v (Fin 0) (Some (Fin 1)) (setEquil 0 y v (Fin 0) (Some (Fin 1)) t))
       [1..h - 2]
       (fold (\<lambda>x t. setEquil x (h - 1) v (Fin 0) (Some (Fin 1)) (setEquil x 0 v (Fin 0) (Some (Fin 1)) t))
          [0..w - 1] s)"
proof -
  define A where "A = (\<lambda>x t. setEquil x (ydim t - 1) v (Fin 0) (Some (Fin 1))
                              (setEquil x 0 v (Fin 0) (Some (Fin 1)) t))"
  define A' where "A' = (\<lambda>x t. setEquil x (h - 1) v (Fin 0) (Some (Fin 1))
                              (setEquil x 0 v (Fin 0) (Some (Fin 1)) t))"
  define B where "B = (\<lambda>y t. setEquil (xdim t - 1) y v (Fin 0) (Some (Fin 1))
                              (setEquil 0 y v (Fin 0) (Some (Fin 1)) t))"
  define B' where "B' = (\<lambda>y t. setEquil (w - 1) y v (Fin 0) (Some (Fin 1))
                              (setEquil 0 y v (Fin 0) (Some (Fin 1)) t))"
  have A: "A x t = A' x t" if "dims w h t" for x t
    using that by (simp add: A_def A'_def dims_def)
  have B: "B y t = B' y t" if "dims w h t" for y t
    using that dims_setEquil [OF that] by (simp add: B_def B'_def dims_def)
  have A': "dims w h (A' x t)" if "dims w h t" for x t
    unfolding A'_def using that by (intro dims_setEquil)
  have B': "dims w h (B' y t)" if "dims w h t" for y t
    unfolding B'_def using that by (intro dims_setEquil)
  have fa: "fold A xs t = fold A' xs t" if "dims w h t" for xs t
    using that
  proof (induction xs arbitrary: t)
    case Nil
    then show ?case by simp
  next
    case (Cons x xs)
    have "fold A xs (A' x t) = fold A' xs (A' x t)"
      using A' [OF Cons.prems] by (rule Cons.IH)
    then show ?case
      by (simp add: A [OF Cons.prems])
  qed
  have fb: "fold B ys t = fold B' ys t" if "dims w h t" for ys t
    using that
  proof (induction ys arbitrary: t)
    case Nil
    then show ?case by simp
  next
    case (Cons y ys)
    have "fold B ys (B' y t) = fold B' ys (B' y t)"
      using B' [OF Cons.prems] by (rule Cons.IH)
    then show ?case
      by (simp add: B [OF Cons.prems])
  qed
  have wh: "xdim s = w" "ydim s = h"
    using assms by (simp_all add: dims_def)
  define s1 where "s1 = fold A' [0..w - 1] s"
  have d1: "dims w h s1"
    unfolding s1_def using assms by (intro fold_inv [where P = "dims w h"] A')
  have "setBoundaries v s = fold B [1..ydim (fold A [0..w - 1] s) - 2] (fold A [0..w - 1] s)"
    by (simp add: setBoundaries_def Let_def loops_fold A_def B_def wh)
  also have "fold A [0..w - 1] s = s1"
    unfolding s1_def using assms by (rule fa)
  also have "ydim s1 = h"
    using d1 by (simp add: dims_def)
  also have "fold B [1..h - 2] s1 = fold B' [1..h - 2] s1"
    using d1 by (rule fb)
  finally show ?thesis
    by (simp add: A'_def B'_def s1_def)
qed

lemma setBoundaries_interior:
  assumes "dims w h s" "1 \<le> x" "x \<le> w - 2" "1 \<le> y" "y \<le> h - 2"
  shows "pops (setBoundaries v s) (x + y * w) = pops s (x + y * w)"
proof -
  let ?P = "\<lambda>t. dims w h t \<and> pops t (x + y * w) = pops s (x + y * w)"
  have keep: "?P (setEquil x' y' v (Fin 0) (Some (Fin 1)) t)"
    if "?P t" "0 \<le> x'" "x' < w" "(y', x') \<noteq> (y, x)" for x' y' t
  proof -
    have "idx w (y, x) \<noteq> idx w (y', x')"
      using idx_inj [of "(y, x)" w "(y', x')"] that(2-4) assms(2,3) by auto
    then have "x + y * w \<noteq> x' + y' * xdim t"
      using that(1) by (simp add: idx_def dims_def)
    then show ?thesis
      using that(1) by (simp add: setEquil_other dims_setEquil)
  qed
  have "?P (setBoundaries v s)"
    unfolding setBoundaries_as_folds [OF assms(1)]
  proof (intro fold_inv_mem [where P = ?P])
    show "?P s"
      using assms(1) by simp
    show "?P (setEquil x' (h - 1) v (Fin 0) (Some (Fin 1)) (setEquil x' 0 v (Fin 0) (Some (Fin 1)) t))"
      if "x' \<in> set [0..w - 1]" "?P t" for x' t
      using that assms(4,5) by (intro keep) simp_all
    show "?P (setEquil (w - 1) y' v (Fin 0) (Some (Fin 1)) (setEquil 0 y' v (Fin 0) (Some (Fin 1)) t))"
      if "y' \<in> set [1..h - 2]" "?P t" for y' t
      using that assms(2,3) by (intro keep) simp_all
  qed
  then show ?thesis ..
qed

lemma setBoundaries_east:
  assumes "dims w h s" "1 \<le> y" "y \<le> h - 2" "2 \<le> w"
  shows "pops (setBoundaries v s) (w - 1 + y * w) = equil (Fin 1) v (Fin 0)"
proof -
  let ?B = "\<lambda>y t. setEquil (w - 1) y v (Fin 0) (Some (Fin 1)) (setEquil 0 y v (Fin 0) (Some (Fin 1)) t)"
  let ?P = "\<lambda>t. dims w h t \<and> pops t (w - 1 + y * w) = equil (Fin 1) v (Fin 0)"
  define s1 where
    "s1 = fold (\<lambda>x t. setEquil x (h - 1) v (Fin 0) (Some (Fin 1)) (setEquil x 0 v (Fin 0) (Some (Fin 1)) t))
            [0..w - 1] s"
  have d1: "dims w h s1"
    unfolding s1_def using assms(1) by (intro fold_inv [where P = "dims w h"] dims_setEquil)
  have "y \<in> set [1..h - 2]"
    using assms(2,3) by simp
  then obtain pre post where split: "[1..h - 2] = pre @ y # post"
    by (blast dest: split_list)
  have "distinct (pre @ y # post)"
    unfolding split [symmetric] by simp
  then have ypost: "y \<notin> set post"
    by simp
  have d2: "dims w h (fold ?B pre s1)"
    using d1 by (intro fold_inv [where P = "dims w h"] dims_setEquil)
  have d3: "dims w h (setEquil 0 y v (Fin 0) (Some (Fin 1)) (fold ?B pre s1))"
    using d2 by (rule dims_setEquil)
  have at: "?P (?B y (fold ?B pre s1))"
    using setEquil_at(1) [OF d3, of "w - 1" y v "Fin 0" "Some (Fin 1)"] assms(2-4)
      dims_setEquil [OF d3] by simp
  have "?P (fold ?B post (?B y (fold ?B pre s1)))"
  proof (rule fold_inv_mem [where P = ?P])
    show "?P (?B y (fold ?B pre s1))" by (rule at)
    fix y' t
    assume y': "y' \<in> set post" and t: "?P t"
    have ne: "y' \<noteq> y"
      using y' ypost by auto
    have "idx w (y, w - 1) \<noteq> idx w (y', 0)" "idx w (y, w - 1) \<noteq> idx w (y', w - 1)"
      using idx_inj [of "(y, w - 1)" w "(y', 0)"] idx_inj [of "(y, w - 1)" w "(y', w - 1)"]
        assms(4) ne by auto
    then have n: "w - 1 + y * w \<noteq> 0 + y' * xdim t"
      "w - 1 + y * w \<noteq> w - 1 + y' * xdim (setEquil 0 y' v (Fin 0) (Some (Fin 1)) t)"
      using t dims_setEquil [of w h t 0 y' v "Fin 0" "Some (Fin 1)"] by (simp_all add: idx_def dims_def)
    show "?P (?B y' t)"
      using t n by (simp add: setEquil_other dims_setEquil)
  qed
  then show ?thesis
    unfolding setBoundaries_as_folds [OF assms(1)] s1_def [symmetric] split by simp
qed

lemma collide_last_row_untouched:
  assumes "dims w h s" "1 \<le> w"
  shows "pops (collide omega s) (w - 1 + (h - 2) * w) = pops s (w - 1 + (h - 2) * w)"
proof -
  define i where "i = idx w (h - 2, w - 1)"
  define cs where "cs = grid [1..h - 2] [1..w - 2]"
  have d1: "dims w h (collide_interior omega s)"
    unfolding collide_as_folds(1) [OF assms(1)]
    using assms(1) by (intro fold_inv [where P = "dims w h"] dims_collide_cell)
  have "pops (collide omega s) i = pops (collide_interior omega s) i"
    unfolding collide_as_folds(2) [OF assms(1)]
  proof (rule fold_other_inv [where I = "dims w h" and key = "\<lambda>y. idx w (y, w - 1)"])
    show "\<And>c s. dims w h s \<Longrightarrow> dims w h (collide_east c s)"
      by (rule dims_collide_east)
    show "\<And>c s. dims w h s \<Longrightarrow> c \<in> set [1..h - 3] \<Longrightarrow> idx w (c, w - 1) \<noteq> i \<Longrightarrow>
        pops (collide_east c s) i = pops s i"
      by (simp add: idx_def dims_def collide_east_other)
    show "dims w h (collide_interior omega s)" by (rule d1)
    show "i \<notin> (\<lambda>y. idx w (y, w - 1)) ` set [1..h - 3]"
    proof
      assume "i \<in> (\<lambda>y. idx w (y, w - 1)) ` set [1..h - 3]"
      then obtain y where y: "y \<in> set [1..h - 3]" "idx w (h - 2, w - 1) = idx w (y, w - 1)"
        by (auto simp: i_def)
      then have "(h - 2, w - 1) = (y, w - 1)"
        using assms(2) by (intro idx_inj [of _ w]) simp_all
      then show False
        using y(1) by simp
    qed
  qed
  also have "\<dots> = pops s i"
    unfolding collide_as_folds(1) [OF assms(1)] cs_def [symmetric]
  proof (rule fold_other_inv [where I = "dims w h" and key = "idx w"])
    show "\<And>c s. dims w h s \<Longrightarrow> dims w h (collide_cell omega (fst c) (snd c) s)"
      by (rule dims_collide_cell)
    show "\<And>c s. dims w h s \<Longrightarrow> c \<in> set cs \<Longrightarrow> idx w c \<noteq> i \<Longrightarrow>
        pops (collide_cell omega (fst c) (snd c) s) i = pops s i"
      by (simp add: idx_def dims_def collide_cell_other)
    show "dims w h s" by (rule assms(1))
    show "i \<notin> idx w ` set cs"
    proof
      assume "i \<in> idx w ` set cs"
      then obtain c where c: "c \<in> set cs" "idx w (h - 2, w - 1) = idx w c"
        by (auto simp: i_def)
      then have "(h - 2, w - 1) = c"
        using assms(2) by (intro idx_inj [of _ w]) (auto simp: cs_def set_grid)
      then show False
        using c(1) by (auto simp: cs_def set_grid)
    qed
  qed
  finally show ?thesis
    by (simp add: i_def idx_def)
qed

lemma fold_shift_at_inv:
  assumes inv: "\<And>c s. I s \<Longrightarrow> I (body c s)"
    and other: "\<And>c s i. I s \<Longrightarrow> c \<in> set cs \<Longrightarrow> key c \<noteq> i \<Longrightarrow> get (body c s) i = get s i"
    and at: "\<And>s. I s \<Longrightarrow> get (body c s) (key c) = get s (src c)"
    and dist: "distinct (map key cs)"
    and safe: "src c \<notin> key ` set cs"
    and start: "I s"
    and mem: "c \<in> set cs"
  shows "get (fold body cs s) (key c) = get s (src c)"
proof -
  obtain pre post where split: "cs = pre @ c # post"
    using mem by (blast dest: split_list)
  have post: "key c \<notin> key ` set post" and pre: "src c \<notin> key ` set pre"
    using dist safe split by auto
  have mid: "I (fold body pre s)"
    using inv start by (rule fold_inv)
  have "get (fold body cs s) (key c) = get (fold body post (body c (fold body pre s))) (key c)"
    by (simp add: split)
  also have "\<dots> = get (body c (fold body pre s)) (key c)"
  proof (rule fold_other_inv [where I = I and key = key])
    show "\<And>c s. I s \<Longrightarrow> I (body c s)" by (rule inv)
    show "I (body c (fold body pre s))" using mid by (rule inv)
    show "key c \<notin> key ` set post" by (rule post)
    show "\<And>d s. I s \<Longrightarrow> d \<in> set post \<Longrightarrow> key d \<noteq> key c \<Longrightarrow>
        get (body d s) (key c) = get s (key c)"
      using other by (simp add: split)
  qed
  also have "\<dots> = get (fold body pre s) (src c)"
    using mid by (rule at)
  also have "\<dots> = get s (src c)"
  proof (rule fold_other_inv [where I = I and key = key])
    show "\<And>c s. I s \<Longrightarrow> I (body c s)" by (rule inv)
    show "I s" by (rule start)
    show "src c \<notin> key ` set pre" by (rule pre)
    show "\<And>d s. I s \<Longrightarrow> d \<in> set pre \<Longrightarrow> key d \<noteq> src c \<Longrightarrow>
        get (body d s) (src c) = get s (src c)"
      using other by (simp add: split)
  qed
  finally show ?thesis .
qed

lemma collide_east_field:
  assumes fld: "\<And>y s. fld (collide_east y s) =
        wr (fld s) (xdim s - 1 + y * xdim s) (rd (fld s) (xdim s - 1 + y * xdim s - 1))"
    and len: "\<And>s. dims w h s \<Longrightarrow> int (length (fld s)) = w * h"
    and d: "dims w h s" and w: "2 \<le> w" and y: "1 \<le> y" "y \<le> h - 3"
  shows "rd (fld (fold collide_east [1..h - 3] s)) (w - 1 + y * w) =
         rd (fld (fold collide_east [1..h - 3] s)) (w - 2 + y * w)"
proof -
  have other: "rd (fld (collide_east y' t)) j = rd (fld t) j"
    if "dims w h t" "idx w (y', w - 1) \<noteq> j" for y' t j
    using that by (simp add: fld rd_wr_other idx_def dims_def)
  have ne: "idx w (y', w - 1) \<noteq> idx w (y, w - 2)" for y'
    using idx_inj [of "(y', w - 1)" w "(y, w - 2)"] w by auto
  have notin: "idx w (y, w - 2) \<notin> (\<lambda>y. idx w (y, w - 1)) ` set [1..h - 3]"
  proof
    assume "idx w (y, w - 2) \<in> (\<lambda>y. idx w (y, w - 1)) ` set [1..h - 3]"
    then obtain y' where "idx w (y, w - 2) = idx w (y', w - 1)"
      by blast
    then show False
      using ne [of y'] by simp
  qed
  have "rd (fld (fold collide_east [1..h - 3] s)) (idx w (y, w - 1)) = rd (fld s) (idx w (y, w - 2))"
  proof (rule fold_shift_at_inv [where I = "dims w h" and key = "\<lambda>y. idx w (y, w - 1)"
        and src = "\<lambda>y. idx w (y, w - 2)"])
    show "\<And>c s. dims w h s \<Longrightarrow> dims w h (collide_east c s)"
      by (rule dims_collide_east)
    show "\<And>c s i. dims w h s \<Longrightarrow> c \<in> set [1..h - 3] \<Longrightarrow> idx w (c, w - 1) \<noteq> i \<Longrightarrow>
        rd (fld (collide_east c s)) i = rd (fld s) i"
      by (rule other)
    show "rd (fld (collide_east y t)) (idx w (y, w - 1)) = rd (fld t) (idx w (y, w - 2))"
      if "dims w h t" for t
    proof -
      have r: "0 \<le> w - 1 + y * w" "w - 1 + y * w < int (length (fld t))"
        using idx_in_range [of "w - 1" w y h] y w len [OF that] by simp_all
      have x: "xdim t = w"
        using that by (simp add: dims_def)
      have "fld (collide_east y t) = wr (fld t) (w - 1 + y * w) (rd (fld t) (w - 1 + y * w - 1))"
        unfolding fld x ..
      then have "rd (fld (collide_east y t)) (w - 1 + y * w) = rd (fld t) (w - 1 + y * w - 1)"
        using r by (simp only: rd_wr_same)
      also have "w - 1 + y * w - 1 = w - 2 + y * w"
        by simp
      finally show ?thesis
        by (simp only: idx_def fst_conv snd_conv)
    qed
    have "inj_on (\<lambda>y. idx w (y, w - 1)) (set [1..h - 3])"
      using idx_inj [of "(_, w - 1)" w "(_, w - 1)"] w by (intro inj_onI) auto
    then show "distinct (map (\<lambda>y. idx w (y, w - 1)) [1..h - 3])"
      by (simp add: distinct_map)
    show "idx w (y, w - 2) \<notin> (\<lambda>y. idx w (y, w - 1)) ` set [1..h - 3]"
      by (rule notin)
    show "dims w h s" by (rule d)
    show "y \<in> set [1..h - 3]"
      using y by simp
  qed
  moreover have "rd (fld (fold collide_east [1..h - 3] s)) (idx w (y, w - 2)) = rd (fld s) (idx w (y, w - 2))"
  proof (rule fold_other_inv [where I = "dims w h" and key = "\<lambda>y. idx w (y, w - 1)"])
    show "\<And>c s. dims w h s \<Longrightarrow> dims w h (collide_east c s)"
      by (rule dims_collide_east)
    show "\<And>c t. dims w h t \<Longrightarrow> c \<in> set [1..h - 3] \<Longrightarrow> idx w (c, w - 1) \<noteq> idx w (y, w - 2) \<Longrightarrow>
        rd (fld (collide_east c t)) (idx w (y, w - 2)) = rd (fld t) (idx w (y, w - 2))"
      by (rule other)
    show "dims w h s" by (rule d)
    show "idx w (y, w - 2) \<notin> (\<lambda>y. idx w (y, w - 1)) ` set [1..h - 3]"
      by (rule notin)
  qed
  ultimately show ?thesis
    by (simp add: idx_def)
qed

text \<open>
  For the rows \<open>1 \<le> y \<le> ydim - 3\<close> the pass does what it is meant to: the West-pointing
  populations of the outflow cell are those of the cell one column inboard.
\<close>

lemma collide_outflow_copied:
  assumes "wf s" "2 \<le> xdim s" "1 \<le> y" "y \<le> ydim s - 3"
  shows "rd (nW (collide omega s)) (xdim s - 1 + y * xdim s) =
           rd (nW (collide omega s)) (xdim s - 2 + y * xdim s) \<and>
         rd (nNW (collide omega s)) (xdim s - 1 + y * xdim s) =
           rd (nNW (collide omega s)) (xdim s - 2 + y * xdim s) \<and>
         rd (nSW (collide omega s)) (xdim s - 1 + y * xdim s) =
           rd (nSW (collide omega s)) (xdim s - 2 + y * xdim s)"
proof -
  define w h where "w = xdim s" and "h = ydim s"
  have d: "dims w h s"
    using assms(1) by (simp add: dims_def w_def h_def)
  have d1: "dims w h (collide_interior omega s)"
    unfolding collide_as_folds(1) [OF d]
    using d by (intro fold_inv [where P = "dims w h"] dims_collide_cell)
  have b: "2 \<le> w" "1 \<le> y" "y \<le> h - 3"
    using assms(2-4) by (simp_all add: w_def h_def)
  show ?thesis
    unfolding w_def [symmetric] collide_as_folds(2) [OF d]
    by (intro conjI collide_east_field [OF _ _ d1 b])
      (simp_all add: collide_east_def Let_def dims_lengths)
qed

lemma stale_outflow_cells:
  "dims 3 3 stale_outflow"
  "pops stale_outflow 4 = equil (Fin 1) (Fin 0) (Fin 0)"
  "pops stale_outflow 5 = equil (Fin 1) (Fin 0.1) (Fin 0)"
proof -
  define s0 where "s0 = initFluid (Fin 0) (new_lbm 3 3 1)"
  have "steady 3 3 0 (barrier (new_lbm 3 3 1)) s0"
    using initFluid_steady [of "new_lbm 3 3 1" 0] by (simp add: s0_def wf_new)
  then have d0: "dims 3 3 s0" and f0: "uniform_flow 0 s0"
    by (simp_all add: steady_def)
  have p0: "pops s0 4 = equil (Fin 1) (Fin 0) (Fin 0)"
    using uniform_flowD [OF f0, of 4] d0 by (simp add: dims_def)
  show "dims 3 3 stale_outflow"
    unfolding stale_outflow_def s0_def [symmetric] setBoundaries_def Let_def
    using d0 by (intro for_lt_inv [where P = "dims 3 3"] dims_setEquil)
  show "pops stale_outflow 4 = equil (Fin 1) (Fin 0) (Fin 0)"
    using setBoundaries_interior [OF d0, of 1 1 "Fin 0.1"] p0
    by (simp add: stale_outflow_def s0_def)
  show "pops stale_outflow 5 = equil (Fin 1) (Fin 0.1) (Fin 0)"
    using setBoundaries_east [OF d0, of 1 "Fin 0.1"]
    by (simp add: stale_outflow_def s0_def)
qed

text \<open>
  C6. The East boundary pass of \<open>collide\<close> runs over the rows \<open>1 \<le> y < ydim - 2\<close> and so
  stops one row short of the interior rows \<open>1 \<le> y \<le> ydim - 2\<close> of the collision pass:
  the outflow cell of row \<open>ydim - 2\<close> keeps the populations it had. On the 3 by 3
  example, after \<open>collide(1)\<close> the West population of the outflow cell \<open>(2, 1)\<close> is
  still the boundary value 73/900, while the cell one column inboard, \<open>(1, 1)\<close>,
  holds 1/9.
\<close>

theorem collide_east_row_missed:
  "rd (nW (collide (Fin 1) stale_outflow)) (3 - 1 + (3 - 2) * 3) = Fin (73 / 900) \<and>
   rd (nW (collide (Fin 1) stale_outflow)) (3 - 2 + (3 - 2) * 3) = Fin (1 / 9)"
proof -
  note d = stale_outflow_cells(1)
  have "pops (collide (Fin 1) stale_outflow) (3 - 1 + (3 - 2) * 3) = equil (Fin 1) (Fin 0.1) (Fin 0)"
    using collide_last_row_untouched [OF d, of "Fin 1"] stale_outflow_cells(3) by simp
  then have e: "rd (nW (collide (Fin 1) stale_outflow)) 5 = Fin (73 / 900)"
    by (simp add: pops_def equil_def Let_def consts_fin)
  have "pops (collide (Fin 1) stale_outflow) (1 + 1 * 3) =
        pops (collide_cell (Fin 1) 1 1 stale_outflow) (1 + 1 * 3)"
    by (rule collide_at [OF d]) simp_all
  also have "\<dots> = equil (Fin 1) (Fin 0) (Fin 0)"
    by (rule collide_cell_equil(1) [OF d]) (simp_all add: stale_outflow_cells(2))
  finally have "rd (nW (collide (Fin 1) stale_outflow)) 4 = Fin (1 / 9)"
    by (simp add: pops_def equil_def Let_def consts_fin)
  then show ?thesis
    using e by simp
qed

section \<open>Streaming in place and double-buffered\<close>

lemma rd_ext:
  assumes "length a = length b" "\<And>i. 0 \<le> i \<Longrightarrow> i < int (length a) \<Longrightarrow> rd a i = rd b i"
  shows "a = b"
proof (rule nth_equalityI)
  show "length a = length b" by (rule assms(1))
  fix i
  assume "i < length a"
  then show "a ! i = b ! i"
    using assms(2) [of "int i"] assms(1) by (simp add: rd_def)
qed

lemma length_buffered [simp]: "length (buffered_shift w h dx dy old) = length old"
  unfolding buffered_shift_def
  by (rule fold_inv [where P = "\<lambda>a. length a = length old"]) simp_all

lemma buffered_at:
  assumes "int (length old) = w * h" "1 \<le> x" "x \<le> w - 2" "1 \<le> y" "y \<le> h - 2"
  shows "rd (buffered_shift w h dx dy old) (x + y * w) = rd old (x + dx + (y + dy) * w)"
proof -
  define cs where "cs = grid [1..h - 2] [1..w - 2]"
  have rng: "1 \<le> snd c \<and> snd c \<le> w - 2 \<and> 1 \<le> fst c \<and> fst c \<le> h - 2" if "c \<in> set cs" for c
    using that by (auto simp: cs_def set_grid)
  have "rd (fold (\<lambda>c new. wr new (idx w c) (rd old (idx w (fst c + dy, snd c + dx)))) cs old)
          (idx w (y, x)) =
        (\<lambda>c v. rd old (idx w (fst c + dy, snd c + dx))) (y, x) (rd old (idx w (y, x)))"
  proof (rule fold_at_inv [where I = "\<lambda>a. int (length a) = w * h" and key = "idx w" and get = rd])
    show "\<And>c s. int (length s) = w * h \<Longrightarrow>
        int (length (wr s (idx w c) (rd old (idx w (fst c + dy, snd c + dx))))) = w * h"
      by simp
    show "\<And>c s i. int (length s) = w * h \<Longrightarrow> c \<in> set cs \<Longrightarrow> idx w c \<noteq> i \<Longrightarrow>
        rd (wr s (idx w c) (rd old (idx w (fst c + dy, snd c + dx)))) i = rd s i"
      by (simp add: rd_wr_other)
    show "rd (wr s (idx w c) (rd old (idx w (fst c + dy, snd c + dx)))) (idx w c) =
        rd old (idx w (fst c + dy, snd c + dx))"
      if "int (length s) = w * h" "c \<in> set cs" for c s
      using interior_idx [of c h w] rng [OF that(2)] that(1) by (simp add: rd_wr_same)
    have "inj_on (idx w) (set cs)"
      by (rule inj_on_idx) (use rng in force)
    then show "distinct (map (idx w) cs)"
      unfolding distinct_map by (simp add: cs_def distinct_grid)
    show "int (length old) = w * h" by (rule assms(1))
    show "(y, x) \<in> set cs"
      using assms(2-5) by (simp add: cs_def set_grid)
  qed
  then show ?thesis
    by (simp add: buffered_shift_def cs_def idx_def)
qed

lemma buffered_other:
  assumes "i \<notin> idx w ` set (grid [1..h - 2] [1..w - 2])"
  shows "rd (buffered_shift w h dx dy old) i = rd old i"
  unfolding buffered_shift_def
  by (rule fold_local_other [where key = "idx w"]) (simp_all add: rd_wr_other assms)

lemma sweeps_frame: "(stream_sweeps t)\<lparr>nN := nN t, nNW := nNW t, nE := nE t, nNE := nNE t, nS := nS t, nSE := nSE t, nW := nW t, nSW := nSW t\<rparr> = t"
  unfolding stream_sweeps_def Let_def
  by (intro for_lt_inv [where P = "\<lambda>u. u\<lparr>nN := nN t, nNW := nNW t, nE := nE t, nNE := nNE t, nS := nS t, nSE := nSE t, nW := nW t, nSW := nSW t\<rparr> = t"]
      for_gt_inv [where P = "\<lambda>u. u\<lparr>nN := nN t, nNW := nNW t, nE := nE t, nNE := nNE t, nS := nS t, nSE := nSE t, nW := nW t, nSW := nSW t\<rparr> = t"])
    (simp_all add: stream_N_def stream_E_def stream_S_def stream_W_def)

lemma sweeps_rebuild: "t\<lparr>nN := nN (stream_sweeps t), nNW := nNW (stream_sweeps t), nE := nE (stream_sweeps t), nNE := nNE (stream_sweeps t), nS := nS (stream_sweeps t), nSE := nSE (stream_sweeps t), nW := nW (stream_sweeps t), nSW := nSW (stream_sweeps t)\<rparr> = stream_sweeps t"
proof -
  have "(stream_sweeps t)\<lparr>nN := nN t, nNW := nNW t, nE := nE t, nNE := nNE t, nS := nS t, nSE := nSE t, nW := nW t, nSW := nSW t\<rparr>\<lparr>nN := nN (stream_sweeps t), nNW := nNW (stream_sweeps t), nE := nE (stream_sweeps t), nNE := nNE (stream_sweeps t), nS := nS (stream_sweeps t), nSE := nSE (stream_sweeps t), nW := nW (stream_sweeps t), nSW := nSW (stream_sweeps t)\<rparr> = stream_sweeps t"
    by simp
  then show ?thesis
    by (simp only: sweeps_frame)
qed

lemma sweeps_field_buffered:
  assumes at: "\<And>x y. 1 \<le> x \<Longrightarrow> x \<le> w - 2 \<Longrightarrow> 1 \<le> y \<Longrightarrow> y \<le> h - 2 \<Longrightarrow>
                 rd new (x + y * w) = rd old (x + dx + (y + dy) * w)"
    and other: "\<And>i. i \<notin> idx w ` set (grid [1..h - 2] [1..w - 2]) \<Longrightarrow> rd new i = rd old i"
    and len: "int (length new) = w * h" "int (length old) = w * h"
  shows "new = buffered_shift w h dx dy old"
proof (rule rd_ext)
  show "length new = length (buffered_shift w h dx dy old)"
    using len by simp
  fix i
  assume "0 \<le> i" "i < int (length new)"
  show "rd new i = rd (buffered_shift w h dx dy old) i"
  proof (cases "i \<in> idx w ` set (grid [1..h - 2] [1..w - 2])")
    case True
    then obtain c where c: "c \<in> set (grid [1..h - 2] [1..w - 2])" "i = snd c + fst c * w"
      by (auto simp: idx_def)
    then have b: "1 \<le> snd c" "snd c \<le> w - 2" "1 \<le> fst c" "fst c \<le> h - 2"
      by (auto simp: set_grid)
    show ?thesis
      unfolding c(2) using at [OF b] buffered_at [OF len(2) b, of dx dy] by simp
  next
    case False
    then show ?thesis
      by (simp add: other buffered_other)
  qed
qed

text \<open>
  C1. On a constructed lattice, the four in-place sweeps of \<open>stream()\<close> are
  double-buffered streaming: the state after the sweeps (before the bounce-back pass)
  is the state that streaming from a copy of the arrays produces, and so each of the
  eight directional populations at an interior cell \<open>(x, y)\<close> (\<open>1 \<le> x \<le> xdim - 2\<close>,
  \<open>1 \<le> y \<le> ydim - 2\<close>) is the value that population had at its upstream neighbour
  before the call. No write of a sweep overwrites a value that a later read of the
  sweep needs.
\<close>

theorem stream_sweeps_double_buffered:
  assumes "wf s"
  shows "stream_sweeps (stream_reset s) = stream_double_buffered (stream_reset s) \<and>
         (\<forall>x y. 1 \<le> x \<and> x \<le> xdim s - 2 \<and> 1 \<le> y \<and> y \<le> ydim s - 2 \<longrightarrow>
            rd (nN (stream_sweeps (stream_reset s))) (x + y * xdim s) = rd (nN s) (x + (y - 1) * xdim s) \<and>
            rd (nNW (stream_sweeps (stream_reset s))) (x + y * xdim s) = rd (nNW s) (x + 1 + (y - 1) * xdim s) \<and>
            rd (nE (stream_sweeps (stream_reset s))) (x + y * xdim s) = rd (nE s) (x - 1 + y * xdim s) \<and>
            rd (nNE (stream_sweeps (stream_reset s))) (x + y * xdim s) = rd (nNE s) (x - 1 + (y - 1) * xdim s) \<and>
            rd (nS (stream_sweeps (stream_reset s))) (x + y * xdim s) = rd (nS s) (x + (y + 1) * xdim s) \<and>
            rd (nSE (stream_sweeps (stream_reset s))) (x + y * xdim s) = rd (nSE s) (x - 1 + (y + 1) * xdim s) \<and>
            rd (nW (stream_sweeps (stream_reset s))) (x + y * xdim s) = rd (nW s) (x + 1 + y * xdim s) \<and>
            rd (nSW (stream_sweeps (stream_reset s))) (x + y * xdim s) = rd (nSW s) (x + 1 + (y + 1) * xdim s))"
proof (rule conjI)
  define t where "t = stream_reset s"
  define p where "p = stream_sweeps t"
  define w h where "w = xdim s" and "h = ydim s"
  have wh: "xdim t = w" "ydim t = h"
    by (simp_all add: t_def w_def h_def stream_reset_def)
  have dp: "dims w h p" and dt: "dims w h t"
    using pre_bounce_dims [OF assms] assms
    by (simp_all add: p_def t_def w_def h_def dims_def wf_def stream_reset_def)
  note lp = dims_lengths [OF dp] and lt = dims_lengths [OF dt]
  have other: "pops p i = pops t i" if "i \<notin> idx w ` set (grid [1..h - 2] [1..w - 2])" for i
    unfolding p_def using that by (intro sweeps_other) (simp add: wh)
  have same: "nN t = nN s" "nNW t = nNW s" "nE t = nE s" "nNE t = nNE s"
    "nS t = nS s" "nSE t = nSE s" "nW t = nW s" "nSW t = nSW s"
    by (simp_all add: t_def stream_reset_def)
  have sh: "rd (nN p) (x + y * w) = rd (nN t) (x + 0 + (y + (- 1)) * w) \<and>
      rd (nNW p) (x + y * w) = rd (nNW t) (x + 1 + (y + (- 1)) * w) \<and>
      rd (nE p) (x + y * w) = rd (nE t) (x + (- 1) + (y + 0) * w) \<and>
      rd (nNE p) (x + y * w) = rd (nNE t) (x + (- 1) + (y + (- 1)) * w) \<and>
      rd (nS p) (x + y * w) = rd (nS t) (x + 0 + (y + 1) * w) \<and>
      rd (nSE p) (x + y * w) = rd (nSE t) (x + (- 1) + (y + 1) * w) \<and>
      rd (nW p) (x + y * w) = rd (nW t) (x + 1 + (y + 0) * w) \<and>
      rd (nSW p) (x + y * w) = rd (nSW t) (x + 1 + (y + 1) * w)"
    if "1 \<le> x" "x \<le> w - 2" "1 \<le> y" "y \<le> h - 2" for x y
    using sweeps_shift [OF assms, of x y] that
    by (simp add: p_def [symmetric] t_def [symmetric] w_def [symmetric] h_def [symmetric] same)
  have nN: "nN p = buffered_shift w h 0 (- 1) (nN t)"
  proof (rule sweeps_field_buffered [OF _ _ lp(1) lt(1)])
    show "\<And>x y. 1 \<le> x \<Longrightarrow> x \<le> w - 2 \<Longrightarrow> 1 \<le> y \<Longrightarrow> y \<le> h - 2 \<Longrightarrow>
        rd (nN p) (x + y * w) = rd (nN t) (x + 0 + (y + (- 1)) * w)"
      using sh by blast
    show "\<And>i. i \<notin> idx w ` set (grid [1..h - 2] [1..w - 2]) \<Longrightarrow> rd (nN p) i = rd (nN t) i"
      using other by (simp add: pops_def)
  qed
  have nNW: "nNW p = buffered_shift w h 1 (- 1) (nNW t)"
  proof (rule sweeps_field_buffered [OF _ _ lp(2) lt(2)])
    show "\<And>x y. 1 \<le> x \<Longrightarrow> x \<le> w - 2 \<Longrightarrow> 1 \<le> y \<Longrightarrow> y \<le> h - 2 \<Longrightarrow>
        rd (nNW p) (x + y * w) = rd (nNW t) (x + 1 + (y + (- 1)) * w)"
      using sh by blast
    show "\<And>i. i \<notin> idx w ` set (grid [1..h - 2] [1..w - 2]) \<Longrightarrow> rd (nNW p) i = rd (nNW t) i"
      using other by (simp add: pops_def)
  qed
  have nE: "nE p = buffered_shift w h (- 1) 0 (nE t)"
  proof (rule sweeps_field_buffered [OF _ _ lp(3) lt(3)])
    show "\<And>x y. 1 \<le> x \<Longrightarrow> x \<le> w - 2 \<Longrightarrow> 1 \<le> y \<Longrightarrow> y \<le> h - 2 \<Longrightarrow>
        rd (nE p) (x + y * w) = rd (nE t) (x + (- 1) + (y + 0) * w)"
      using sh by blast
    show "\<And>i. i \<notin> idx w ` set (grid [1..h - 2] [1..w - 2]) \<Longrightarrow> rd (nE p) i = rd (nE t) i"
      using other by (simp add: pops_def)
  qed
  have nNE: "nNE p = buffered_shift w h (- 1) (- 1) (nNE t)"
  proof (rule sweeps_field_buffered [OF _ _ lp(4) lt(4)])
    show "\<And>x y. 1 \<le> x \<Longrightarrow> x \<le> w - 2 \<Longrightarrow> 1 \<le> y \<Longrightarrow> y \<le> h - 2 \<Longrightarrow>
        rd (nNE p) (x + y * w) = rd (nNE t) (x + (- 1) + (y + (- 1)) * w)"
      using sh by blast
    show "\<And>i. i \<notin> idx w ` set (grid [1..h - 2] [1..w - 2]) \<Longrightarrow> rd (nNE p) i = rd (nNE t) i"
      using other by (simp add: pops_def)
  qed
  have nS: "nS p = buffered_shift w h 0 1 (nS t)"
  proof (rule sweeps_field_buffered [OF _ _ lp(5) lt(5)])
    show "\<And>x y. 1 \<le> x \<Longrightarrow> x \<le> w - 2 \<Longrightarrow> 1 \<le> y \<Longrightarrow> y \<le> h - 2 \<Longrightarrow>
        rd (nS p) (x + y * w) = rd (nS t) (x + 0 + (y + 1) * w)"
      using sh by blast
    show "\<And>i. i \<notin> idx w ` set (grid [1..h - 2] [1..w - 2]) \<Longrightarrow> rd (nS p) i = rd (nS t) i"
      using other by (simp add: pops_def)
  qed
  have nSE: "nSE p = buffered_shift w h (- 1) 1 (nSE t)"
  proof (rule sweeps_field_buffered [OF _ _ lp(6) lt(6)])
    show "\<And>x y. 1 \<le> x \<Longrightarrow> x \<le> w - 2 \<Longrightarrow> 1 \<le> y \<Longrightarrow> y \<le> h - 2 \<Longrightarrow>
        rd (nSE p) (x + y * w) = rd (nSE t) (x + (- 1) + (y + 1) * w)"
      using sh by blast
    show "\<And>i. i \<notin> idx w ` set (grid [1..h - 2] [1..w - 2]) \<Longrightarrow> rd (nSE p) i = rd (nSE t) i"
      using other by (simp add: pops_def)
  qed
  have nW: "nW p = buffered_shift w h 1 0 (nW t)"
  proof (rule sweeps_field_buffered [OF _ _ lp(7) lt(7)])
    show "\<And>x y. 1 \<le> x \<Longrightarrow> x \<le> w - 2 \<Longrightarrow> 1 \<le> y \<Longrightarrow> y \<le> h - 2 \<Longrightarrow>
        rd (nW p) (x + y * w) = rd (nW t) (x + 1 + (y + 0) * w)"
      using sh by blast
    show "\<And>i. i \<notin> idx w ` set (grid [1..h - 2] [1..w - 2]) \<Longrightarrow> rd (nW p) i = rd (nW t) i"
      using other by (simp add: pops_def)
  qed
  have nSW: "nSW p = buffered_shift w h 1 1 (nSW t)"
  proof (rule sweeps_field_buffered [OF _ _ lp(8) lt(8)])
    show "\<And>x y. 1 \<le> x \<Longrightarrow> x \<le> w - 2 \<Longrightarrow> 1 \<le> y \<Longrightarrow> y \<le> h - 2 \<Longrightarrow>
        rd (nSW p) (x + y * w) = rd (nSW t) (x + 1 + (y + 1) * w)"
      using sh by blast
    show "\<And>i. i \<notin> idx w ` set (grid [1..h - 2] [1..w - 2]) \<Longrightarrow> rd (nSW p) i = rd (nSW t) i"
      using other by (simp add: pops_def)
  qed
  have "p = t\<lparr>nN := nN p, nNW := nNW p, nE := nE p, nNE := nNE p,
                nS := nS p, nSE := nSE p, nW := nW p, nSW := nSW p\<rparr>"
    unfolding p_def by (rule sweeps_rebuild [symmetric])
  also have "\<dots> = stream_double_buffered t"
    unfolding nN nNW nE nNE nS nSE nW nSW by (simp add: stream_double_buffered_def wh)
  finally show "stream_sweeps (stream_reset s) = stream_double_buffered (stream_reset s)"
    by (simp add: p_def t_def)
next
  show "\<forall>x y. 1 \<le> x \<and> x \<le> xdim s - 2 \<and> 1 \<le> y \<and> y \<le> ydim s - 2 \<longrightarrow>
            rd (nN (stream_sweeps (stream_reset s))) (x + y * xdim s) = rd (nN s) (x + (y - 1) * xdim s) \<and>
            rd (nNW (stream_sweeps (stream_reset s))) (x + y * xdim s) = rd (nNW s) (x + 1 + (y - 1) * xdim s) \<and>
            rd (nE (stream_sweeps (stream_reset s))) (x + y * xdim s) = rd (nE s) (x - 1 + y * xdim s) \<and>
            rd (nNE (stream_sweeps (stream_reset s))) (x + y * xdim s) = rd (nNE s) (x - 1 + (y - 1) * xdim s) \<and>
            rd (nS (stream_sweeps (stream_reset s))) (x + y * xdim s) = rd (nS s) (x + (y + 1) * xdim s) \<and>
            rd (nSE (stream_sweeps (stream_reset s))) (x + y * xdim s) = rd (nSE s) (x - 1 + (y + 1) * xdim s) \<and>
            rd (nW (stream_sweeps (stream_reset s))) (x + y * xdim s) = rd (nW s) (x + 1 + y * xdim s) \<and>
            rd (nSW (stream_sweeps (stream_reset s))) (x + y * xdim s) = rd (nSW s) (x + 1 + (y + 1) * xdim s)"
    using sweeps_shift [OF assms] by (intro allI impI) simp
qed

theorem stream_sweeps_double_buffered_witness:
  "wf ((new_lbm 3 3 1)\<lparr>nN := map Fin [0, 1, 2, 3, 4, 5, 6, 7, 8]\<rparr>) \<and>
   stream_sweeps (stream_reset ((new_lbm 3 3 1)\<lparr>nN := map Fin [0, 1, 2, 3, 4, 5, 6, 7, 8]\<rparr>)) =
     stream_double_buffered (stream_reset ((new_lbm 3 3 1)\<lparr>nN := map Fin [0, 1, 2, 3, 4, 5, 6, 7, 8]\<rparr>)) \<and>
   rd (nN (stream_sweeps (stream_reset ((new_lbm 3 3 1)\<lparr>nN := map Fin [0, 1, 2, 3, 4, 5, 6, 7, 8]\<rparr>)))) 4
     = Fin 1"
proof -
  define s where "s = (new_lbm 3 3 1)\<lparr>nN := map Fin [0, 1, 2, 3, 4, 5, 6, 7, 8]\<rparr>"
  have w: "wf s"
    by (simp add: s_def wf_def new_lbm_def Let_def)
  have x: "xdim s = 3" "ydim s = 3" "nN s = map Fin [0, 1, 2, 3, 4, 5, 6, 7, 8]"
    by (simp_all add: s_def)
  note t = stream_sweeps_double_buffered [OF w]
  have "rd (nN (stream_sweeps (stream_reset s))) (1 + 1 * xdim s) = rd (nN s) (1 + (1 - 1) * xdim s)"
    using t [THEN conjunct2, rule_format, of 1 1] by (simp add: x)
  then have "rd (nN (stream_sweeps (stream_reset s))) 4 = Fin 1"
    by (simp add: x rd_def)
  then show ?thesis
    using w t [THEN conjunct1] unfolding s_def by simp
qed

end
